theory Spec2Isabelle
  imports Main "HOL-Library.Multiset" "HOL-Library.Char_ord" "HOL-Library.List_Lexorder"
begin

section \<open>Data model of the room and of the match\<close>

text \<open>
  The types of the play page (\<^verbatim>\<open>Suit\<close>, \<^verbatim>\<open>CardT\<close>, \<^verbatim>\<open>DiscardCard\<close>, \<^verbatim>\<open>Origin\<close>, \<^verbatim>\<open>Meld\<close>,
  \<^verbatim>\<open>GamePlayer\<close>, \<^verbatim>\<open>GameState\<close>) and of the lobby page (\<^verbatim>\<open>Slot\<close>, \<^verbatim>\<open>Room\<close>).
  A field keeps its source name behind the name of its type (\<open>card_id\<close> is \<^verbatim>\<open>CardT.id\<close>,
  \<open>dc_fromUid\<close> is \<^verbatim>\<open>DiscardCard.fromUid\<close>), since several types share field names.
  Identities and card ids are strings, ranks and timestamps are JavaScript numbers
  holding integers. A field that is \<^verbatim>\<open>null\<close> or absent is \<open>None\<close>. The store keeps no
  empty array: an array that was written empty comes back as an absent field. So the
  empty list stands for the absent array. The guards of the source read it that way
  (\<^verbatim>\<open>Array.isArray(cur.stock) ? cur.stock : []\<close>, \<^verbatim>\<open>cur.players?.[uid]?.hand ?? []\<close>); where
  the source calls a method on the array with no guard (\<^verbatim>\<open>cur.players[uid].hand.push\<close>), the
  empty list is the \<^verbatim>\<open>TypeError\<close> of a property read on \<^verbatim>\<open>undefined\<close>.
\<close>

datatype Suit = C | D | H | S

record CardT =
  card_id :: string
  card_r :: int
  card_s :: Suit

text \<open>\<^verbatim>\<open>DiscardCard = CardT & { fromUid, at }\<close>: the card with its discarder and time.\<close>

record DiscardCard =
  dc_card :: CardT
  dc_fromUid :: "string option"
  dc_at :: int

datatype OriginKind = FromStock | FromDiscard

record Origin =
  origin_kind :: OriginKind
  origin_fromUid :: "string option"

datatype MeldKind = SetMeld | RunMeld

record Meld =
  meld_id :: string
  meld_ownerUid :: string
  meld_kind :: "MeldKind option"
  meld_cards :: "CardT list"
  meld_createdAt :: int

record GamePlayer =
  player_name :: string
  player_hand :: "CardT list"
  player_hasMelded :: bool
  player_score :: int
  player_scoredCards :: "CardT list"
  player_lastTurnTookDiscardFromUid :: "string option"

datatype Phase = LobbyPhase | PlayingPhase

datatype Step = DrawStep | DiscardStep

text \<open>
  \<^verbatim>\<open>players\<close> is a JavaScript object read with \<^verbatim>\<open>Object.keys\<close>, so the order of its keys
  matters: it is an association list in the order of \<^verbatim>\<open>Object.keys\<close>, with one entry per
  key.
\<close>

record GameState =
  phase :: "Phase option"
  startedAt :: "int option"
  turnUid :: "string option"
  step :: Step
  headCardId :: "string option"
  stock :: "CardT list"
  discard :: "DiscardCard list"
  cardOrigins :: "string \<rightharpoonup> Origin"
  tableMelds :: "Meld list"
  players :: "(string \<times> GamePlayer) list"
  winnerUid :: "string option"
  endedAt :: "int option"

section \<open>Meld classifier\<close>

text \<open>The loop of \<^verbatim>\<open>isValidRun\<close>: every element is its predecessor plus one.\<close>

fun consecutive :: "int list \<Rightarrow> bool" where
  "consecutive (a # b # rs) = (b = a + 1 \<and> consecutive (b # rs))"
| "consecutive rs = True"

definition isValidSet :: "CardT list \<Rightarrow> bool" where
  "isValidSet cards =
     (if length cards < 3 then False
      else if \<not> list_all (\<lambda>c. card_r c = card_r (hd cards)) cards then False
      else card (set (map card_s cards)) = length cards)"

definition isValidRun :: "CardT list \<Rightarrow> bool" where
  "isValidRun cards =
     (if length cards < 3 then False
      else if \<not> list_all (\<lambda>c. card_s c = card_s (hd cards)) cards then False
      else consecutive (sort (map card_r cards)))"

text \<open>The result \<^verbatim>\<open>{ ok, kind? }\<close> of \<^verbatim>\<open>classifyMeld\<close>.\<close>

record Classified =
  cls_ok :: bool
  cls_kind :: "MeldKind option"

definition classifyMeld :: "CardT list \<Rightarrow> Classified" where
  "classifyMeld cards =
     (if isValidSet cards then \<lparr>cls_ok = True, cls_kind = Some SetMeld\<rparr>
      else if isValidRun cards then \<lparr>cls_ok = True, cls_kind = Some RunMeld\<rparr>
      else \<lparr>cls_ok = False, cls_kind = None\<rparr>)"


section \<open>JavaScript primitives used by the pages\<close>

text \<open>Truthiness of a string (\<^verbatim>\<open>null\<close>, \<^verbatim>\<open>undefined\<close> and \<^verbatim>\<open>""\<close> are falsy) and of a number.\<close>

definition truthy_str :: "string option \<Rightarrow> bool" where
  "truthy_str v = (case v of None \<Rightarrow> False | Some x \<Rightarrow> x \<noteq> [])"

definition truthy_num :: "int option \<Rightarrow> bool" where
  "truthy_num v = (case v of None \<Rightarrow> False | Some n \<Rightarrow> n \<noteq> 0)"

text \<open>\<^verbatim>\<open>arr.pop()\<close>: the last element (\<^verbatim>\<open>undefined\<close> on an empty array) and the rest.\<close>

definition pop :: "'a list \<Rightarrow> 'a option \<times> 'a list" where
  "pop xs = (case xs of [] \<Rightarrow> (None, []) | _ # _ \<Rightarrow> (Some (last xs), butlast xs))"

text \<open>\<^verbatim>\<open>arr.findIndex(p)\<close>; \<open>None\<close> stands for \<^verbatim>\<open>-1\<close>.\<close>

fun findIndex :: "('a \<Rightarrow> bool) \<Rightarrow> 'a list \<Rightarrow> nat option" where
  "findIndex p [] = None"
| "findIndex p (x # xs) = (if p x then Some 0 else map_option Suc (findIndex p xs))"

text \<open>\<^verbatim>\<open>arr.indexOf(x)\<close>, with its \<^verbatim>\<open>-1\<close>.\<close>

definition indexOf :: "'a \<Rightarrow> 'a list \<Rightarrow> int" where
  "indexOf x xs = (case findIndex (\<lambda>y. y = x) xs of None \<Rightarrow> - 1 | Some i \<Rightarrow> int i)"

text \<open>\<^verbatim>\<open>arr.splice(i, 1)\<close>: the array without position \<open>i\<close>.\<close>

definition splice1 :: "nat \<Rightarrow> 'a list \<Rightarrow> 'a list" where
  "splice1 i xs = take i xs @ drop (Suc i) xs"

text \<open>\<^verbatim>\<open>Array.from(new Set(xs))\<close>: the first occurrence of every element, in order.\<close>

fun setInsertAll :: "'a list \<Rightarrow> 'a list \<Rightarrow> 'a list" where
  "setInsertAll seen [] = seen"
| "setInsertAll seen (x # xs) = setInsertAll (if x \<in> set seen then seen else seen @ [x]) xs"

definition arrayFromSet :: "'a list \<Rightarrow> 'a list" where
  "arrayFromSet xs = setInsertAll [] xs"

text \<open>
  Objects keyed by identity. \<^verbatim>\<open>Object.keys\<close> lists string keys in insertion order
  (identities are not array-index strings), so \<^verbatim>\<open>obj[k] = v\<close> keeps the place of a
  key that exists and appends a new one; changing a property of \<^verbatim>\<open>obj[k]\<close> in place
  keeps every key where it is. An object read back from the store has its keys in key
  order (\<open>stored\<close> below), whatever the order in which they were inserted before the write.
\<close>

fun obj_set :: "string \<Rightarrow> 'v \<Rightarrow> (string \<times> 'v) list \<Rightarrow> (string \<times> 'v) list" where
  "obj_set k v [] = [(k, v)]"
| "obj_set k v ((k', v') # kvs) = (if k' = k then (k, v) # kvs else (k', v') # obj_set k v kvs)"

fun obj_modify :: "string \<Rightarrow> ('v \<Rightarrow> 'v) \<Rightarrow> (string \<times> 'v) list \<Rightarrow> (string \<times> 'v) list" where
  "obj_modify k f [] = []"
| "obj_modify k f ((k', v') # kvs) = (if k' = k then (k', f v') # kvs else (k', v') # obj_modify k f kvs)"

definition Object_keys :: "(string \<times> 'v) list \<Rightarrow> string list" where
  "Object_keys obj = map fst obj"

text \<open>\<^verbatim>\<open>String(r)\<close> of a natural number.\<close>

definition digit :: "nat \<Rightarrow> char" where
  "digit n = (''0123456789'' ! n)"

fun decimal :: "nat \<Rightarrow> string" where
  "decimal n = (if n < 10 then [digit n] else decimal (n div 10) @ [digit (n mod 10)])"

section \<open>The store's transaction primitive\<close>

text \<open>
  What an update function handed to \<^verbatim>\<open>runTransaction\<close> does: it returns a value to write,
  returns \<^verbatim>\<open>undefined\<close> to abort, or throws a \<^verbatim>\<open>TypeError\<close> on the way (a property
  read on \<^verbatim>\<open>undefined\<close>). \<open>runTransaction\<close> is the store's contract: the update function
  runs on the latest value; a written value is committed, an abort or an exception
  leaves the stored value as it was and reports \<^verbatim>\<open>committed = false\<close>. Concurrent
  transactions on one path are applied one at a time, each to the value the previous
  one left: \<open>runAll\<close>.
\<close>

datatype 'a Txn = Write 'a | Abort | Throw

record 'a TxnResult =
  committed :: bool
  snapshot :: 'a

definition runTransaction :: "('a \<Rightarrow> 'a Txn) \<Rightarrow> 'a \<Rightarrow> 'a TxnResult" where
  "runTransaction f cur =
     (case f cur of
        Write v \<Rightarrow> \<lparr>committed = True, snapshot = v\<rparr>
      | Abort \<Rightarrow> \<lparr>committed = False, snapshot = cur\<rparr>
      | Throw \<Rightarrow> \<lparr>committed = False, snapshot = cur\<rparr>)"

fun runAll :: "('a \<Rightarrow> 'a Txn) list \<Rightarrow> 'a \<Rightarrow> bool list \<times> 'a" where
  "runAll [] cur = ([], cur)"
| "runAll (f # fs) cur =
     (let res = runTransaction f cur; (bs, final) = runAll fs (snapshot res)
      in (committed res # bs, final))"

section \<open>Lobby: seats and the start of the game\<close>

record Slot =
  slot_uid :: string
  slot_name :: string
  slot_ready :: bool

text \<open>\<^verbatim>\<open>Record<"1" | "2" | "3" | "4", Slot>\<close>: a seat is \<^verbatim>\<open>null\<close> (\<open>None\<close>) or a \<^verbatim>\<open>Slot\<close>.\<close>

record Slots =
  seat1 :: "Slot option"
  seat2 :: "Slot option"
  seat3 :: "Slot option"
  seat4 :: "Slot option"

datatype Status = LobbyStatus | PlayingStatus

record Room =
  createdAt :: "int option"
  status :: "Status option"
  hostUid :: "string option"
  slots :: "Slots option"
  game :: "GameState option"

definition EMPTY_SLOTS :: Slots where
  "EMPTY_SLOTS = \<lparr>seat1 = None, seat2 = None, seat3 = None, seat4 = None\<rparr>"

text \<open>The update function of \<^verbatim>\<open>claimSlot\<close>, run on the seat's path.\<close>

definition claimSlot :: "string \<Rightarrow> string \<Rightarrow> Slot option \<Rightarrow> Slot option Txn" where
  "claimSlot uid name current =
     (case current of
        None \<Rightarrow> Write (Some \<lparr>slot_uid = uid, slot_name = name, slot_ready = False\<rparr>)
      | Some sl \<Rightarrow> if slot_uid sl = uid then Write current else Abort)"

text \<open>The update functions of \<^verbatim>\<open>leaveSlot\<close> and \<^verbatim>\<open>toggleReady\<close>.\<close>

definition leaveSlot :: "string \<Rightarrow> Slot option \<Rightarrow> Slot option Txn" where
  "leaveSlot uid current =
     (case current of
        None \<Rightarrow> Write current
      | Some sl \<Rightarrow> if slot_uid sl = uid then Write None else Write current)"

definition toggleReady :: "string \<Rightarrow> Slot option \<Rightarrow> Slot option Txn" where
  "toggleReady uid current =
     (case current of
        None \<Rightarrow> Write current
      | Some sl \<Rightarrow> if slot_uid sl \<noteq> uid then Write current
                   else Write (Some (sl\<lparr>slot_ready := \<not> slot_ready sl\<rparr>)))"

text \<open>
  The four seats of a room value, \<^verbatim>\<open>room.slots ?? {}\<close> read seat by seat, and its occupied
  seats: \<^verbatim>\<open>[slots["1"], ..., slots["4"]].filter(...)\<close>.
\<close>

definition seatsOf :: "Room \<Rightarrow> Slot option list" where
  "seatsOf room =
     (case slots room of
        None \<Rightarrow> [None, None, None, None]
      | Some ss \<Rightarrow> [seat1 ss, seat2 ss, seat3 ss, seat4 ss])"

definition occupiedSeats :: "Room \<Rightarrow> Slot list" where
  "occupiedSeats room = concat (map (\<lambda>sl. case sl of None \<Rightarrow> [] | Some x \<Rightarrow> [x]) (seatsOf room))"

definition slot1Uid :: "Room \<Rightarrow> string option" where
  "slot1Uid room = map_option slot_uid (hd (seatsOf room))"

definition statusOf :: "Room \<Rightarrow> Status" where
  "statusOf room = (case status room of None \<Rightarrow> LobbyStatus | Some st \<Rightarrow> st)"

definition phaseOf :: "Room \<Rightarrow> Phase" where
  "phaseOf room =
     (case game room of
        None \<Rightarrow> LobbyPhase
      | Some g \<Rightarrow> (case phase g of None \<Rightarrow> LobbyPhase | Some ph \<Rightarrow> ph))"

text \<open>
  \<^verbatim>\<open>canStart\<close>, computed from a room value: the same test is made on the local snapshot
  and on the value fetched again from the store.
\<close>

definition everyoneReady :: "Room \<Rightarrow> bool" where
  "everyoneReady room =
     (length (occupiedSeats room) > 0 \<and> list_all (\<lambda>p. slot_ready p = True) (occupiedSeats room))"

definition canStart :: "Room \<Rightarrow> bool" where
  "canStart room =
     (statusOf room = LobbyStatus \<and> phaseOf room = LobbyPhase \<and>
      length (occupiedSeats room) \<ge> 2 \<and> length (occupiedSeats room) \<le> 4 \<and>
      everyoneReady room)"

text \<open>The engine state written by \<^verbatim>\<open>startGameBySlot1\<close> of the room page.\<close>

definition initialGame :: "int \<Rightarrow> string option \<Rightarrow> GameState" where
  "initialGame now latestSlot1Uid =
     \<lparr>phase = Some PlayingPhase, startedAt = Some now, turnUid = latestSlot1Uid,
      step = DrawStep, headCardId = None, stock = [], discard = [],
      cardOrigins = Map.empty, tableMelds = [], players = [],
      winnerUid = None, endedAt = None\<rparr>"

text \<open>
  \<^verbatim>\<open>startGameBySlot1\<close> of the room page. \<open>uid\<close> is the caller (\<open>None\<close> before sign-in),
  \<open>room\<close> the caller's last snapshot, \<open>latest\<close> the value \<^verbatim>\<open>get(roomRef)\<close> returns.
  The result is the room after \<^verbatim>\<open>update(...)\<close>, or \<open>None\<close> when the function returns
  before writing.
\<close>

definition startGameBySlot1 :: "string option \<Rightarrow> int \<Rightarrow> Room option \<Rightarrow> Room option \<Rightarrow> Room option" where
  "startGameBySlot1 uid now room latest =
     (if \<not> truthy_str uid then None
      else if (case room of None \<Rightarrow> None | Some r \<Rightarrow> slot1Uid r) \<noteq> uid then None
      else if \<not> (case room of None \<Rightarrow> False | Some r \<Rightarrow> canStart r) then None
      else (case latest of
              None \<Rightarrow> None
            | Some l \<Rightarrow>
                if slot1Uid l \<noteq> uid then None
                else if \<not> canStart l then None
                else Some (l\<lparr>status := Some PlayingStatus,
                            game := Some (initialGame now (slot1Uid l))\<rparr>)))"

text \<open>
  The earlier revision of the room page differs in two places. It reads the fetched
  seats as they come, \<^verbatim>\<open>latest.slots ?? EMPTY_SLOTS\<close> filtered by \<^verbatim>\<open>x !== null\<close>: the seats of
  \<^verbatim>\<open>EMPTY_SLOTS\<close> are \<^verbatim>\<open>null\<close> and go, but the store keeps no \<^verbatim>\<open>null\<close> child, so an empty
  seat of a fetched \<^verbatim>\<open>slots\<close> object is \<^verbatim>\<open>undefined\<close>, stays in \<^verbatim>\<open>latestPlayers\<close> (as \<open>None\<close>) and
  is counted. \<^verbatim>\<open>latestPlayers.every((p) => p.ready === true)\<close> then stops with \<open>Some False\<close> at
  the first seat that is not ready and with the \<^verbatim>\<open>TypeError\<close> of \<^verbatim>\<open>p.ready\<close> (\<open>None\<close>) at the
  first empty one. And it ends with a transaction on the game path that only writes
  while the phase is still \<^verbatim>\<open>lobby\<close>, then an update of the status.
\<close>

definition latestPlayers :: "Room \<Rightarrow> Slot option list" where
  "latestPlayers l =
     (case slots l of
        None \<Rightarrow> []
      | Some ss \<Rightarrow> [seat1 ss, seat2 ss, seat3 ss, seat4 ss])"

fun every_ready :: "Slot option list \<Rightarrow> bool option" where
  "every_ready [] = Some True"
| "every_ready (None # ps) = None"
| "every_ready (Some p # ps) = (if slot_ready p = True then every_ready ps else Some False)"

definition latestEveryoneReady :: "Room \<Rightarrow> bool option" where
  "latestEveryoneReady l =
     (if length (latestPlayers l) > 0 then every_ready (latestPlayers l) else Some False)"

definition startTransition :: "int \<Rightarrow> GameState option \<Rightarrow> GameState option Txn" where
  "startTransition now g =
     (case g of
        None \<Rightarrow> Write g
      | Some gs \<Rightarrow> if phase gs \<noteq> Some LobbyPhase then Write g
                   else Write (Some (gs\<lparr>phase := Some PlayingPhase, startedAt := Some now\<rparr>)))"

text \<open>
  \<^verbatim>\<open>startGameBySlot1\<close> of the earlier revision. The result is \<open>None\<close> when the function
  returns or throws before writing.
\<close>

definition startGameBySlot1_tx :: "string option \<Rightarrow> int \<Rightarrow> Room option \<Rightarrow> Room option \<Rightarrow> Room option" where
  "startGameBySlot1_tx uid now room latest =
     (if \<not> truthy_str uid then None
      else if (case room of None \<Rightarrow> None | Some r \<Rightarrow> slot1Uid r) \<noteq> uid then None
      else if \<not> (case room of None \<Rightarrow> False | Some r \<Rightarrow> canStart r) then None
      else (case latest of
              None \<Rightarrow> None
            | Some l \<Rightarrow>
                (case latestEveryoneReady l of
                   None \<Rightarrow> None
                 | Some ready \<Rightarrow>
                     if slot1Uid l \<noteq> uid then None
                     else if \<not> (statusOf l = LobbyStatus \<and> phaseOf l = LobbyPhase \<and>
                                 length (latestPlayers l) \<ge> 2 \<and> length (latestPlayers l) \<le> 4 \<and>
                                 ready) then None
                     else Some (l\<lparr>game := snapshot (runTransaction (startTransition now) (game l)),
                                 status := Some PlayingStatus\<rparr>))))"


section \<open>Play page: deck, deal and the turn actions\<close>

definition suits :: "Suit list" where
  "suits = [C, D, H, S]"

fun suitName :: "Suit \<Rightarrow> string" where
  "suitName C = ''C''"
| "suitName D = ''D''"
| "suitName H = ''H''"
| "suitName S = ''S''"

text \<open>
  \<^verbatim>\<open>makeDeck\<close>: for every suit, ranks 1 to 13, with the id \<^verbatim>\<open>`${s}-${r}-${crypto.randomUUID()}`\<close>.
  \<open>uuid k\<close> is what the \<open>k\<close>-th call of \<^verbatim>\<open>crypto.randomUUID()\<close> returns.
\<close>

definition cardId :: "Suit \<Rightarrow> int \<Rightarrow> string \<Rightarrow> string" where
  "cardId su rk u = suitName su @ ''-'' @ decimal (nat rk) @ ''-'' @ u"

definition makeDeck :: "(nat \<Rightarrow> string) \<Rightarrow> CardT list" where
  "makeDeck uuid =
     map (\<lambda>(k, su, rk). \<lparr>card_id = cardId su rk (uuid k), card_r = rk, card_s = su\<rparr>)
       (enumerate 0 (List.product suits [1..13]))"

text \<open>
  \<^verbatim>\<open>shuffle\<close>: for \<open>i\<close> from the last index down to 1, swap positions \<open>i\<close> and \<open>j\<close>, where
  \<open>j = rnd i\<close> is the value of \<^verbatim>\<open>Math.floor(Math.random() * (i + 1))\<close> drawn in that round
  (an integer from 0 to \<open>i\<close>).
\<close>

definition swap :: "nat \<Rightarrow> nat \<Rightarrow> 'a list \<Rightarrow> 'a list" where
  "swap i j a = a[i := a ! j, j := a ! i]"

fun shuffleFrom :: "(nat \<Rightarrow> nat) \<Rightarrow> nat \<Rightarrow> 'a list \<Rightarrow> 'a list" where
  "shuffleFrom rnd 0 a = a"
| "shuffleFrom rnd (Suc i) a = shuffleFrom rnd i (swap (Suc i) (rnd (Suc i)) a)"

definition shuffle :: "(nat \<Rightarrow> nat) \<Rightarrow> 'a list \<Rightarrow> 'a list" where
  "shuffle rnd arr = shuffleFrom rnd (length arr - 1) arr"

text \<open>
  \<^verbatim>\<open>joinedUids\<close>: the identities of the four seats, falsy ones filtered out, without
  repetition. The play page reads the seats as \<^verbatim>\<open>{ ...EMPTY_SLOTS, ...(room?.slots ?? {}) }\<close>.
\<close>

definition joinedUids :: "Slots \<Rightarrow> string list" where
  "joinedUids ss =
     arrayFromSet
       (concat (map (\<lambda>sl. case sl of None \<Rightarrow> [] | Some x \<Rightarrow> (if slot_uid x \<noteq> [] then [slot_uid x] else []))
          [seat1 ss, seat2 ss, seat3 ss, seat4 ss]))"

text \<open>
  The dealing loops: seven rounds, in each one card popped from the deck for every
  joined identity in turn, pushed to \<^verbatim>\<open>hands[puid]\<close> (an object keyed by identity, every
  joined identity set to \<^verbatim>\<open>[]\<close> first). \<open>None\<close> is the deck running out: the source then pushes
  \<^verbatim>\<open>undefined\<close> into a hand and throws at \<^verbatim>\<open>c.id\<close> while recording the origins, before
  anything is written.
\<close>

fun dealRound :: "string list \<Rightarrow> (string \<times> CardT list) list \<times> CardT list \<Rightarrow> ((string \<times> CardT list) list \<times> CardT list) option" where
  "dealRound [] st = Some st"
| "dealRound (puid # rest) (hands, deck) =
     (case pop deck of
        (None, _) \<Rightarrow> None
      | (Some c, deck') \<Rightarrow> dealRound rest (obj_modify puid (\<lambda>h. h @ [c]) hands, deck'))"

fun dealRounds :: "nat \<Rightarrow> string list \<Rightarrow> (string \<times> CardT list) list \<times> CardT list \<Rightarrow> ((string \<times> CardT list) list \<times> CardT list) option" where
  "dealRounds 0 joined st = Some st"
| "dealRounds (Suc n) joined st =
     (case dealRound joined st of None \<Rightarrow> None | Some st' \<Rightarrow> dealRounds n joined st')"

text \<open>\<^verbatim>\<open>for (const puid of joinedUids) hands[puid] = []\<close>, and the read of \<^verbatim>\<open>hands[puid]\<close>.\<close>

definition emptyHands :: "string list \<Rightarrow> (string \<times> CardT list) list" where
  "emptyHands joined = fold (\<lambda>puid hs. obj_set puid [] hs) joined []"

definition handsAt :: "(string \<times> CardT list) list \<Rightarrow> string \<Rightarrow> CardT list" where
  "handsAt hands puid = (case map_of hands puid of None \<Rightarrow> [] | Some h \<Rightarrow> h)"

definition newPlayer :: "GameState \<Rightarrow> string \<Rightarrow> CardT list \<Rightarrow> GamePlayer" where
  "newPlayer cur puid hand =
     \<lparr>player_name = (case map_of (players cur) puid of None \<Rightarrow> ''Player'' | Some pl \<Rightarrow> player_name pl),
      player_hand = hand, player_hasMelded = False, player_score = 0,
      player_scoredCards = [], player_lastTurnTookDiscardFromUid = None\<rparr>"

definition stockOrigin :: Origin where
  "stockOrigin = \<lparr>origin_kind = FromStock, origin_fromUid = None\<rparr>"

definition headOf :: "CardT option \<Rightarrow> int \<Rightarrow> DiscardCard list" where
  "headOf head now =
     (case head of None \<Rightarrow> [] | Some h \<Rightarrow> [\<lparr>dc_card = h, dc_fromUid = None, dc_at = now\<rparr>])"

text \<open>
  The update function of the init effect, on the game path: \<open>deck\<close> is
  \<^verbatim>\<open>shuffle(makeDeck())\<close>, \<open>joined\<close> is \<^verbatim>\<open>joinedUids\<close>, \<open>now\<close> is \<^verbatim>\<open>Date.now()\<close>.
\<close>

definition dealTx :: "CardT list \<Rightarrow> string list \<Rightarrow> int \<Rightarrow> GameState option \<Rightarrow> GameState option Txn" where
  "dealTx deck joined now cur =
     (case cur of
        None \<Rightarrow> Write cur
      | Some g \<Rightarrow>
          if phase g \<noteq> Some PlayingPhase then Write cur
          else if stock g \<noteq> [] \<or> discard g \<noteq> [] then Write cur
          else (case dealRounds 7 joined (emptyHands joined, deck) of
                  None \<Rightarrow> Throw
                | Some (hands, stock0) \<Rightarrow>
                    (let (head, stock1) = pop stock0 in
                     Write (Some (g\<lparr>
                       stock := stock1,
                       discard := headOf head now,
                       headCardId := map_option card_id head,
                       players := fold (\<lambda>puid ps. obj_set puid (newPlayer g puid (handsAt hands puid)) ps) joined [],
                       cardOrigins := fold (\<lambda>puid m. fold (\<lambda>c m'. m'(card_id c \<mapsto> stockOrigin)) (handsAt hands puid) m) joined Map.empty,
                       tableMelds := [],
                       turnUid := (case turnUid g of
                                     Some t \<Rightarrow> Some t
                                   | None \<Rightarrow> (case joined of [] \<Rightarrow> None | j # _ \<Rightarrow> Some j)),
                       step := DrawStep,
                       winnerUid := None,
                       endedAt := None\<rparr>)))))"

definition initDeal :: "(nat \<Rightarrow> string) \<Rightarrow> (nat \<Rightarrow> nat) \<Rightarrow> Slots \<Rightarrow> int \<Rightarrow> GameState option \<Rightarrow> GameState option Txn" where
  "initDeal uuid rnd ss now cur = dealTx (shuffle rnd (makeDeck uuid)) (joinedUids ss) now cur"

text \<open>The guards every turn action starts with; \<open>stp\<close> is the step the action needs.\<close>

definition ended :: "GameState \<Rightarrow> bool" where
  "ended g = (truthy_str (winnerUid g) \<or> truthy_num (endedAt g))"

definition notMyStep :: "string \<Rightarrow> Step \<Rightarrow> GameState \<Rightarrow> bool" where
  "notMyStep uid stp g =
     (phase g \<noteq> Some PlayingPhase \<or> ended g \<or> turnUid g \<noteq> Some uid \<or> step g \<noteq> stp)"

definition handOf :: "GameState \<Rightarrow> string \<Rightarrow> CardT list" where
  "handOf g uid = (case map_of (players g) uid of None \<Rightarrow> [] | Some pl \<Rightarrow> player_hand pl)"

text \<open>
  The update functions of \<^verbatim>\<open>drawStock\<close>, \<^verbatim>\<open>takeTopDiscard\<close>, \<^verbatim>\<open>eatHead\<close>, \<^verbatim>\<open>discardCardById\<close>
  and \<^verbatim>\<open>layMeld\<close>. Each returns \<^verbatim>\<open>cur\<close> itself where the source does. \<open>Throw\<close> is the
  \<^verbatim>\<open>TypeError\<close> of \<^verbatim>\<open>cur.players[uid].hand.push(...)\<close>: when the caller has no player record,
  and when the caller's record has no \<^verbatim>\<open>hand\<close>, which is the case of an empty hand
  (\<^verbatim>\<open>discardCardById\<close> and \<^verbatim>\<open>layMeld\<close> read the hand as \<^verbatim>\<open>cur.players?.[uid]?.hand ?? []\<close> and
  do not throw there). A card in a hand is read by \<^verbatim>\<open>id\<close>, \<^verbatim>\<open>r\<close> and \<^verbatim>\<open>s\<close> only, so a hand
  holds \<open>CardT\<close> values.
\<close>

definition drawStock :: "string \<Rightarrow> GameState option \<Rightarrow> GameState option Txn" where
  "drawStock uid cur =
     (case cur of
        None \<Rightarrow> Write cur
      | Some g \<Rightarrow>
          if notMyStep uid DrawStep g then Write cur
          else if stock g = [] then Write cur
          else (case map_of (players g) uid of
                  None \<Rightarrow> Throw
                | Some pl \<Rightarrow>
                    if player_hand pl = [] then Throw
                    else
                    (let card = last (stock g) in
                     Write (Some (g\<lparr>
                       stock := butlast (stock g),
                       players := obj_modify uid
                         (\<lambda>p. p\<lparr>player_hand := player_hand p @ [card],
                                player_lastTurnTookDiscardFromUid := None\<rparr>) (players g),
                       cardOrigins := (cardOrigins g)(card_id card \<mapsto> stockOrigin),
                       step := DiscardStep\<rparr>)))))"

definition canTakeTopDiscard :: "GameState \<Rightarrow> bool" where
  "canTakeTopDiscard g = (length (discard g) \<ge> 2)"

definition takeTopDiscard :: "string \<Rightarrow> GameState option \<Rightarrow> GameState option Txn" where
  "takeTopDiscard uid cur =
     (case cur of
        None \<Rightarrow> Write cur
      | Some g \<Rightarrow>
          if notMyStep uid DrawStep g then Write cur
          else if length (discard g) < 2 then Write cur
          else (case map_of (players g) uid of
                  None \<Rightarrow> Throw
                | Some pl \<Rightarrow>
                    if player_hand pl = [] then Throw
                    else
                    (let card = last (discard g) in
                     Write (Some (g\<lparr>
                       discard := butlast (discard g),
                       players := obj_modify uid
                         (\<lambda>p. p\<lparr>player_hand := player_hand p @ [dc_card card],
                                player_lastTurnTookDiscardFromUid := dc_fromUid card\<rparr>) (players g),
                       cardOrigins := (cardOrigins g)(card_id (dc_card card) \<mapsto>
                         \<lparr>origin_kind = FromDiscard, origin_fromUid = dc_fromUid card\<rparr>),
                       step := DiscardStep\<rparr>)))))"

definition eatHead :: "string \<Rightarrow> int \<Rightarrow> GameState option \<Rightarrow> GameState option Txn" where
  "eatHead uid now cur =
     (case cur of
        None \<Rightarrow> Write cur
      | Some g \<Rightarrow>
          if notMyStep uid DrawStep g then Write cur
          else (case map_of (players g) uid of
                  None \<Rightarrow> Throw
                | Some pl \<Rightarrow>
                    if discard g \<noteq> [] \<and> player_hand pl = [] then Throw
                    else
                    (let pile = discard g;
                         (newHead, stock') = pop (stock g) in
                     Write (Some (g\<lparr>
                       players := obj_modify uid
                         (\<lambda>p. p\<lparr>player_hand := player_hand p @ map dc_card pile,
                                player_lastTurnTookDiscardFromUid := None\<rparr>) (players g),
                       cardOrigins := fold (\<lambda>c m. m(card_id (dc_card c) \<mapsto>
                           \<lparr>origin_kind = FromDiscard, origin_fromUid = dc_fromUid c\<rparr>)) pile (cardOrigins g),
                       stock := stock',
                       discard := headOf newHead now,
                       headCardId := map_option card_id newHead,
                       step := DiscardStep\<rparr>)))))"

text \<open>
  The next turn of \<^verbatim>\<open>discardCardById\<close>: \<^verbatim>\<open>uids[(curIndex + 1) % uids.length] ?? null\<close> over
  \<^verbatim>\<open>Object.keys(cur.players)\<close>.
\<close>

definition nextUid :: "string \<Rightarrow> string list \<Rightarrow> string option" where
  "nextUid uid uids =
     (if uids = [] then None
      else Some (uids ! nat ((indexOf uid uids + 1) mod int (length uids))))"

definition discardCardById :: "string \<Rightarrow> string \<Rightarrow> int \<Rightarrow> GameState option \<Rightarrow> GameState option Txn" where
  "discardCardById uid cid now cur =
     (case cur of
        None \<Rightarrow> Write cur
      | Some g \<Rightarrow>
          if notMyStep uid DiscardStep g then Write cur
          else (let hand = handOf g uid in
                case findIndex (\<lambda>c. card_id c = cid) hand of
                  None \<Rightarrow> Write cur
                | Some idx \<Rightarrow>
                    (let card = hand ! idx in
                     Write (Some (g\<lparr>
                       players := obj_modify uid (\<lambda>p. p\<lparr>player_hand := splice1 idx hand\<rparr>) (players g),
                       discard := discard g @ [\<lparr>dc_card = card, dc_fromUid = Some uid, dc_at = now\<rparr>],
                       cardOrigins := (cardOrigins g)(card_id card \<mapsto>
                         \<lparr>origin_kind = FromDiscard, origin_fromUid = Some uid\<rparr>),
                       turnUid := nextUid uid (Object_keys (players g)),
                       step := DrawStep\<rparr>)))))"

text \<open>
  The first loop of \<^verbatim>\<open>layMeld\<close>: the selected ids looked up in the hand, in order;
  \<open>None\<close> when one is missing.
\<close>

fun pickCards :: "string list \<Rightarrow> CardT list \<Rightarrow> (CardT list \<times> nat list) option" where
  "pickCards [] hand = Some ([], [])"
| "pickCards (i # ids) hand =
     (case findIndex (\<lambda>c. card_id c = i) hand of
        None \<Rightarrow> None
      | Some idx \<Rightarrow>
          (case pickCards ids hand of
             None \<Rightarrow> None
           | Some (picked, pickedIdx) \<Rightarrow> Some (hand ! idx # picked, idx # pickedIdx)))"

definition hasDiscardCard :: "(string \<rightharpoonup> Origin) \<Rightarrow> CardT list \<Rightarrow> bool" where
  "hasDiscardCard origins picked =
     list_ex (\<lambda>c. case origins (card_id c) of None \<Rightarrow> False | Some og \<Rightarrow> origin_kind og = FromDiscard) picked"

text \<open>\<^verbatim>\<open>pickedIdx.sort((a, b) => b - a).forEach((i) => hand.splice(i, 1))\<close>.\<close>

definition removePicked :: "nat list \<Rightarrow> 'a list \<Rightarrow> 'a list" where
  "removePicked pickedIdx hand = fold splice1 (rev (sort pickedIdx)) hand"

text \<open>
  \<open>ids\<close> is \<^verbatim>\<open>Object.keys(selected)\<close>, \<open>mid\<close> the meld's \<^verbatim>\<open>crypto.randomUUID()\<close>. The kind of
  the meld is \<^verbatim>\<open>cls.kind\<close> as the classifier gave it.
\<close>

definition layMeld :: "string \<Rightarrow> string list \<Rightarrow> string \<Rightarrow> int \<Rightarrow> GameState option \<Rightarrow> GameState option Txn" where
  "layMeld uid ids mid now cur =
     (case cur of
        None \<Rightarrow> Write cur
      | Some g \<Rightarrow>
          if notMyStep uid DiscardStep g then Write cur
          else (let hand = handOf g uid in
                case pickCards ids hand of
                  None \<Rightarrow> Write cur
                | Some (picked, pickedIdx) \<Rightarrow>
                    (let cls = classifyMeld picked in
                     if \<not> cls_ok cls then Write cur
                     else if \<not> hasDiscardCard (cardOrigins g) picked then Write cur
                     else (case map_of (players g) uid of
                             None \<Rightarrow> Throw
                           | Some pl \<Rightarrow>
                               Write (Some (g\<lparr>
                                 players := obj_modify uid
                                   (\<lambda>p. p\<lparr>player_hand := removePicked pickedIdx hand,
                                          player_hasMelded := True,
                                          player_scoredCards := player_scoredCards p @ picked\<rparr>) (players g),
                                 tableMelds := tableMelds g @
                                   [\<lparr>meld_id = mid, meld_ownerUid = uid, meld_kind = cls_kind cls,
                                     meld_cards = picked, meld_createdAt = now\<rparr>]\<rparr>))))))"


section \<open>Races, reachable states and a sample match\<close>

text \<open>
  Concurrent claims on one seat: the update functions of the callers, in the order in
  which the store serialises them.
\<close>

definition claims :: "(string \<times> string) list \<Rightarrow> (Slot option \<Rightarrow> Slot option Txn) list" where
  "claims cs = map (\<lambda>(uid, name). claimSlot uid name) cs"

text \<open>A lobby with two ready players, Ann on seat 1.\<close>

definition demoRoom :: Room where
  "demoRoom =
     \<lparr>createdAt = Some 1, status = Some LobbyStatus, hostUid = Some ''ann'',
      slots = Some \<lparr>seat1 = Some \<lparr>slot_uid = ''ann'', slot_name = ''Ann'', slot_ready = True\<rparr>,
                    seat2 = Some \<lparr>slot_uid = ''bob'', slot_name = ''Bob'', slot_ready = True\<rparr>,
                    seat3 = None, seat4 = None\<rparr>,
      game = None\<rparr>"

text \<open>
  A game as the store hands it to the next reader. The store keeps the children of an
  object by key and returns them in key order, whatever the order in which the writer
  inserted them, so \<^verbatim>\<open>Object.keys(cur.players)\<close> of a stored game lists the identities in
  ascending order of their strings (the identities are the uids of the sign-in service,
  not integers, which the store and JavaScript would order by value).
\<close>

definition stored :: "GameState \<Rightarrow> GameState" where
  "stored g = g\<lparr>players := sort_key fst (players g)\<rparr>"

text \<open>
  The game stored after a transaction has run on a stored game: the written value as the
  store returns it, or the old one when nothing was written.
\<close>

definition play :: "(GameState option \<Rightarrow> GameState option Txn) \<Rightarrow> GameState \<Rightarrow> GameState" where
  "play f g = (case snapshot (runTransaction f (Some g)) of None \<Rightarrow> g | Some g' \<Rightarrow> stored g')"

text \<open>
  The states a match can be in, as the store holds them: dealt by the init effect from a
  started game whose stock and pile are empty, for the seats \<open>ss\<close> the dealing client
  sees, and then changed by the turn actions, each of which reads the stored game and
  writes its result back. The ids of \<^verbatim>\<open>layMeld\<close> are the keys of an object, so they do
  not repeat.
\<close>

inductive reachable :: "Slots \<Rightarrow> GameState \<Rightarrow> bool" for ss :: Slots where
  dealt: "phase g0 = Some PlayingPhase \<Longrightarrow> stock g0 = [] \<Longrightarrow> discard g0 = [] \<Longrightarrow>
          initDeal uuid rnd ss now (Some g0) = Write (Some g) \<Longrightarrow> reachable ss (stored g)"
| drew: "reachable ss g \<Longrightarrow> drawStock uid (Some g) = Write (Some g') \<Longrightarrow> reachable ss (stored g')"
| took: "reachable ss g \<Longrightarrow> takeTopDiscard uid (Some g) = Write (Some g') \<Longrightarrow> reachable ss (stored g')"
| ate: "reachable ss g \<Longrightarrow> eatHead uid now (Some g) = Write (Some g') \<Longrightarrow> reachable ss (stored g')"
| discarded: "reachable ss g \<Longrightarrow> discardCardById uid cid now (Some g) = Write (Some g') \<Longrightarrow>
              reachable ss (stored g')"
| melded: "reachable ss g \<Longrightarrow> distinct ids \<Longrightarrow> layMeld uid ids mid now (Some g) = Write (Some g') \<Longrightarrow>
           reachable ss (stored g')"

text \<open>The counts of the conservation property: cards in hands, stock and pile, and cards melded.\<close>

definition handCards :: "GameState \<Rightarrow> nat" where
  "handCards g = sum_list (map (\<lambda>kv. length (player_hand (snd kv))) (players g))"

definition handsStockPile :: "GameState \<Rightarrow> nat" where
  "handsStockPile g = handCards g + length (stock g) + length (discard g)"

definition meldedCards :: "GameState \<Rightarrow> nat" where
  "meldedCards g = sum_list (map (\<lambda>m. length (meld_cards m)) (tableMelds g))"

text \<open>Every card of a match state, wherever it lies.\<close>

definition allCards :: "GameState \<Rightarrow> CardT list" where
  "allCards g =
     concat (map (\<lambda>kv. player_hand (snd kv)) (players g)) @ stock g @ map dc_card (discard g) @
     concat (map meld_cards (tableMelds g))"

text \<open>
  A match of Ann (seat 1) and Bob (seat 2). The deck comes out of \<^verbatim>\<open>shuffle\<close> in the order
  \<^verbatim>\<open>makeDeck\<close> built it (every random index is the largest one), and the random UUID of
  the \<open>k\<close>-th card ends in the two digits of \<open>k\<close>; \<open>demoId su rk k\<close> is the id of that card.
  Ann eats the head and discards it again, Bob eats the pile and lays the run of hearts
  11, 12, 13.
\<close>

definition demoUuid :: "nat \<Rightarrow> string" where
  "demoUuid k = ''00000000-0000-4000-8000-0000000000'' @ [digit (k div 10), digit (k mod 10)]"

definition demoId :: "Suit \<Rightarrow> int \<Rightarrow> nat \<Rightarrow> string" where
  "demoId su rk k = cardId su rk (demoUuid k)"

definition demoRnd :: "nat \<Rightarrow> nat" where
  "demoRnd i = i"

definition demoSlots :: Slots where
  "demoSlots = \<lparr>seat1 = Some \<lparr>slot_uid = ''ann'', slot_name = ''Ann'', slot_ready = True\<rparr>,
                seat2 = Some \<lparr>slot_uid = ''bob'', slot_name = ''Bob'', slot_ready = True\<rparr>,
                seat3 = None, seat4 = None\<rparr>"

definition demo0 :: GameState where
  "demo0 = initialGame 5 (Some ''ann'')"

definition demo1 :: GameState where
  "demo1 = play (initDeal demoUuid demoRnd demoSlots 6) demo0"

definition demo2 :: GameState where
  "demo2 = play (eatHead ''ann'' 7) demo1"

definition demo3 :: GameState where
  "demo3 = play (discardCardById ''ann'' (demoId H 12 37) 8) demo2"

definition demo4 :: GameState where
  "demo4 = play (eatHead ''bob'' 9) demo3"

definition demo5 :: GameState where
  "demo5 = play (layMeld ''bob'' [demoId H 11 36, demoId H 12 37, demoId H 13 38] ''m1'' 10) demo4"

text \<open>Transactions run one after the other, each on the game the one before left in the store.\<close>

definition playAll :: "(GameState option \<Rightarrow> GameState option Txn) list \<Rightarrow> GameState \<Rightarrow> GameState" where
  "playAll fs g = fold play fs g"

text \<open>
  The same match over again, played on from the deal until Bob has no card left. Ann
  draws from the stock each turn and discards spades 11, spades 7, hearts 11 and spades
  1. Bob eats the pile twice and takes its top once, lays the runs of spades 10 to 12,
  spades 6 to 8 and hearts 10 to 13, and discards spades 2 (twice) and then spades 4,
  his last card. When his turn comes again the pile has four cards.
\<close>

definition bobOut :: GameState where
  "bobOut = playAll
     [drawStock ''ann'', discardCardById ''ann'' (demoId S 11 49) 11,
      eatHead ''bob'' 12,
      layMeld ''bob'' [demoId S 10 48, demoId S 11 49, demoId S 12 50] ''m1'' 13,
      discardCardById ''bob'' (demoId S 2 40) 14,
      drawStock ''ann'', discardCardById ''ann'' (demoId S 7 45) 15,
      eatHead ''bob'' 16,
      layMeld ''bob'' [demoId S 6 44, demoId S 7 45, demoId S 8 46] ''m2'' 17,
      discardCardById ''bob'' (demoId S 2 40) 18,
      drawStock ''ann'', discardCardById ''ann'' (demoId H 11 36) 19,
      takeTopDiscard ''bob'',
      layMeld ''bob'' [demoId H 10 35, demoId H 11 36, demoId H 12 37, demoId H 13 38] ''m3'' 20,
      discardCardById ''bob'' (demoId S 4 42) 21,
      drawStock ''ann'', discardCardById ''ann'' (demoId S 1 39) 22]
     demo1"






text \<open>What a state shows: everything but the origins of the cards, cards by their ids.\<close>

definition view :: "GameState \<Rightarrow>
    Phase option \<times> bool \<times> string option \<times> Step \<times> (string \<times> string list) list \<times> nat \<times>
    (string \<times> string option) list \<times> (MeldKind option \<times> string list) list" where
  "view g =
     (phase g, ended g, turnUid g, step g,
      map (\<lambda>kv. (fst kv, map card_id (player_hand (snd kv)))) (players g),
      length (stock g),
      map (\<lambda>d. (card_id (dc_card d), dc_fromUid d)) (discard g),
      map (\<lambda>m. (meld_kind m, map card_id (meld_cards m))) (tableMelds g))"

text \<open>
  Two strings clash when one begins with the other: what two ids need in order to be
  equal once something is appended to each.
\<close>

definition clash :: "string \<Rightarrow> string \<Rightarrow> bool" where
  "clash a b = (take (length a) b = a \<or> take (length b) a = b)"

text \<open>
  Concurrent runs of the init effect, each with its own deck, random draws, view of the
  seats and clock, in the order in which the store serialises them.
\<close>

definition deals :: "((nat \<Rightarrow> string) \<times> (nat \<Rightarrow> nat) \<times> Slots \<times> int) list \<Rightarrow> (GameState option \<Rightarrow> GameState option Txn) list" where
  "deals attempts = map (\<lambda>(uuid, rnd, ss, now). initDeal uuid rnd ss now) attempts"

text \<open>
  Ann signed in on seats 1 and 2, Bob on seat 3.
\<close>

definition dupSlots :: Slots where
  "dupSlots = \<lparr>seat1 = Some \<lparr>slot_uid = ''ann'', slot_name = ''Ann'', slot_ready = True\<rparr>,
               seat2 = Some \<lparr>slot_uid = ''ann'', slot_name = ''Ann'', slot_ready = True\<rparr>,
               seat3 = Some \<lparr>slot_uid = ''bob'', slot_name = ''Bob'', slot_ready = True\<rparr>,
               seat4 = None\<rparr>"

section \<open>Properties of the meld classifier\<close>

lemma consecutive_Cons2: "consecutive (a # b # rs) \<longleftrightarrow> b = a + 1 \<and> consecutive (b # rs)"
  by (simp only: consecutive.simps)

lemma consecutive_iff: "consecutive rs \<longleftrightarrow> (\<forall>i. 0 < i \<and> i < length rs \<longrightarrow> rs ! i = rs ! (i - 1) + 1)"
proof (induction rs rule: consecutive.induct)
  case (1 a b rs)
  let ?P = "\<lambda>xs. \<forall>i. 0 < i \<and> i < length xs \<longrightarrow> xs ! i = xs ! (i - 1) + (1::int)"
  have step: "?P (a # b # rs) \<longleftrightarrow> b = a + 1 \<and> ?P (b # rs)"
  proof (intro iffI conjI allI impI)
    assume h: "?P (a # b # rs)"
    from h[rule_format, of 1] show "b = a + 1" by simp
  next
    fix i assume h: "?P (a # b # rs)" and i: "0 < i \<and> i < length (b # rs)"
    then obtain k where k: "i = Suc k" by (cases i) simp_all
    from h[rule_format, of "Suc i"] i have "(b # rs) ! i = (a # b # rs) ! i + 1" by simp
    then show "(b # rs) ! i = (b # rs) ! (i - 1) + 1" by (simp add: k)
  next
    fix i assume h: "b = a + 1 \<and> ?P (b # rs)" and i: "0 < i \<and> i < length (a # b # rs)"
    then obtain k where k: "i = Suc k" by (cases i) simp_all
    show "(a # b # rs) ! i = (a # b # rs) ! (i - 1) + 1"
    proof (cases k)
      case 0 then show ?thesis using h k by simp
    next
      case (Suc m)
      from h have "?P (b # rs)" by blast
      from this[rule_format, of k] i k Suc have "(b # rs) ! k = (b # rs) ! (k - 1) + 1" by simp
      then show ?thesis by (simp add: k Suc)
    qed
  qed
  show ?case by (simp only: consecutive_Cons2 1 step)
qed auto

lemma all_same_hd:
  assumes "xs \<noteq> []"
  shows "list_all (\<lambda>c. f c = f (hd xs)) xs \<longleftrightarrow> (\<forall>c\<in>set xs. \<forall>c'\<in>set xs. f c = f c')"
proof -
  from assms have "hd xs \<in> set xs" by (rule hd_in_set)
  then show ?thesis unfolding list_all_iff by metis
qed

lemma Set_size_distinct: "card (set xs) = length xs \<longleftrightarrow> distinct xs"
  using card_distinct[of xs] distinct_card[of xs] by blast

lemma isValidSet_iff:
  "isValidSet cards \<longleftrightarrow> 3 \<le> length cards \<and> (\<forall>c\<in>set cards. \<forall>c'\<in>set cards. card_r c = card_r c') \<and> distinct (map card_s cards)"
proof (cases "length cards < 3")
  case True then show ?thesis by (simp add: isValidSet_def)
next
  case False
  then have ne: "cards \<noteq> []" by auto
  have "isValidSet cards \<longleftrightarrow> list_all (\<lambda>c. card_r c = card_r (hd cards)) cards \<and> card (set (map card_s cards)) = length (map card_s cards)"
    using False by (simp add: isValidSet_def)
  also have "\<dots> \<longleftrightarrow> (\<forall>c\<in>set cards. \<forall>c'\<in>set cards. card_r c = card_r c') \<and> distinct (map card_s cards)"
    by (simp only: all_same_hd[OF ne] Set_size_distinct)
  finally have "isValidSet cards \<longleftrightarrow> (\<forall>c\<in>set cards. \<forall>c'\<in>set cards. card_r c = card_r c') \<and> distinct (map card_s cards)" .
  moreover have "3 \<le> length cards" using False by simp
  ultimately show ?thesis by blast
qed


lemma isValidRun_iff:
  "isValidRun cards \<longleftrightarrow> 3 \<le> length cards \<and> (\<forall>c\<in>set cards. \<forall>c'\<in>set cards. card_s c = card_s c') \<and>
     (\<forall>i. 0 < i \<and> i < length cards \<longrightarrow> sort (map card_r cards) ! i = sort (map card_r cards) ! (i - 1) + 1)"
proof (cases "length cards < 3")
  case True then show ?thesis by (simp add: isValidRun_def)
next
  case False
  then have ne: "cards \<noteq> []" by auto
  have "isValidRun cards \<longleftrightarrow> list_all (\<lambda>c. card_s c = card_s (hd cards)) cards \<and> consecutive (sort (map card_r cards))"
    using False by (simp add: isValidRun_def)
  also have "\<dots> \<longleftrightarrow> (\<forall>c\<in>set cards. \<forall>c'\<in>set cards. card_s c = card_s c') \<and>
     (\<forall>i. 0 < i \<and> i < length cards \<longrightarrow> sort (map card_r cards) ! i = sort (map card_r cards) ! (i - 1) + 1)"
    by (simp only: all_same_hd[OF ne] consecutive_iff length_sort length_map)
  finally have "isValidRun cards \<longleftrightarrow> (\<forall>c\<in>set cards. \<forall>c'\<in>set cards. card_s c = card_s c') \<and>
     (\<forall>i. 0 < i \<and> i < length cards \<longrightarrow> sort (map card_r cards) ! i = sort (map card_r cards) ! (i - 1) + 1)" .
  moreover have "3 \<le> length cards" using False by simp
  ultimately show ?thesis by blast
qed

lemma set_not_run:
  assumes s: "isValidSet cards"
  shows "\<not> isValidRun cards"
proof
  assume r: "isValidRun cards"
  have "3 \<le> length cards \<and> (\<forall>c\<in>set cards. \<forall>c'\<in>set cards. card_r c = card_r c') \<and> distinct (map card_s cards)"
    by (rule isValidSet_iff[THEN iffD1, OF s])
  then have len: "3 \<le> length cards" and same: "\<forall>c\<in>set cards. \<forall>c'\<in>set cards. card_r c = card_r c'"
    by blast+
  let ?rs = "sort (map card_r cards)"
  have l: "length ?rs = length cards" by simp
  from r have "\<forall>i. 0 < i \<and> i < length cards \<longrightarrow> ?rs ! i = ?rs ! (i - 1) + 1"
    using isValidRun_iff[of cards] by blast
  from this[rule_format, of 1] len have e: "?rs ! 1 = ?rs ! 0 + 1" by simp
  have l0: "0 < length ?rs" and l1: "1 < length ?rs" using len l by linarith+
  have "?rs ! 0 \<in> set ?rs" by (rule nth_mem[OF l0])
  moreover have "?rs ! 1 \<in> set ?rs" by (rule nth_mem[OF l1])
  ultimately have "?rs ! 0 \<in> card_r ` set cards" "?rs ! 1 \<in> card_r ` set cards" by simp_all
  then have "?rs ! 1 = ?rs ! 0" using same by (metis imageE)
  with e show False by simp
qed

lemma classifyMeld_kind_set: "cls_kind (classifyMeld cards) = Some SetMeld \<longleftrightarrow> isValidSet cards"
  by (simp add: classifyMeld_def)

lemma classifyMeld_kind_run: "cls_kind (classifyMeld cards) = Some RunMeld \<longleftrightarrow> isValidRun cards"
  using set_not_run[of cards] by (auto simp add: classifyMeld_def)

lemma classifyMeld_ok: "cls_ok (classifyMeld cards) \<longleftrightarrow> cls_kind (classifyMeld cards) \<noteq> None"
  by (simp add: classifyMeld_def)


text \<open>
  Claim C5. \<^verbatim>\<open>classifyMeld\<close> is a function of the cards alone. It answers \<^verbatim>\<open>set\<close> exactly for
  three or more cards of one rank with pairwise different suits, and \<^verbatim>\<open>run\<close> exactly for
  three or more cards of one suit whose ranks, sorted ascending, each exceed the previous
  by one (so nothing wraps from 13 to 1). \<^verbatim>\<open>ok\<close> says that a kind was given. The set test
  comes first. Three fives of clubs, diamonds and hearts are a set, 4-5-6 of spades is a
  run, and K-A-2 of spades is invalid.
\<close>

theorem classifyMeld_spec:
  "(cls_kind (classifyMeld cards) = Some SetMeld \<longleftrightarrow>
      3 \<le> length cards \<and> (\<forall>c\<in>set cards. \<forall>c'\<in>set cards. card_r c = card_r c') \<and>
      distinct (map card_s cards))
   \<and> (cls_kind (classifyMeld cards) = Some RunMeld \<longleftrightarrow>
      3 \<le> length cards \<and> (\<forall>c\<in>set cards. \<forall>c'\<in>set cards. card_s c = card_s c') \<and>
      (\<forall>i. 0 < i \<and> i < length cards \<longrightarrow>
         sort (map card_r cards) ! i = sort (map card_r cards) ! (i - 1) + 1))
   \<and> (cls_ok (classifyMeld cards) \<longleftrightarrow> cls_kind (classifyMeld cards) \<noteq> None)
   \<and> (isValidSet cards \<longrightarrow> classifyMeld cards = \<lparr>cls_ok = True, cls_kind = Some SetMeld\<rparr>)
   \<and> classifyMeld [\<lparr>card_id = i1, card_r = 5, card_s = C\<rparr>, \<lparr>card_id = i2, card_r = 5, card_s = D\<rparr>,
         \<lparr>card_id = i3, card_r = 5, card_s = H\<rparr>] = \<lparr>cls_ok = True, cls_kind = Some SetMeld\<rparr>
   \<and> classifyMeld [\<lparr>card_id = i1, card_r = 4, card_s = S\<rparr>, \<lparr>card_id = i2, card_r = 5, card_s = S\<rparr>,
         \<lparr>card_id = i3, card_r = 6, card_s = S\<rparr>] = \<lparr>cls_ok = True, cls_kind = Some RunMeld\<rparr>
   \<and> classifyMeld [\<lparr>card_id = i1, card_r = 13, card_s = S\<rparr>, \<lparr>card_id = i2, card_r = 1, card_s = S\<rparr>,
         \<lparr>card_id = i3, card_r = 2, card_s = S\<rparr>] = \<lparr>cls_ok = False, cls_kind = None\<rparr>"
proof (intro conjI)
  show "cls_kind (classifyMeld cards) = Some SetMeld \<longleftrightarrow>
      3 \<le> length cards \<and> (\<forall>c\<in>set cards. \<forall>c'\<in>set cards. card_r c = card_r c') \<and>
      distinct (map card_s cards)"
    by (simp only: classifyMeld_kind_set isValidSet_iff)
  show "cls_kind (classifyMeld cards) = Some RunMeld \<longleftrightarrow>
      3 \<le> length cards \<and> (\<forall>c\<in>set cards. \<forall>c'\<in>set cards. card_s c = card_s c') \<and>
      (\<forall>i. 0 < i \<and> i < length cards \<longrightarrow>
         sort (map card_r cards) ! i = sort (map card_r cards) ! (i - 1) + 1)"
    by (simp only: classifyMeld_kind_run isValidRun_iff)
  show "cls_ok (classifyMeld cards) \<longleftrightarrow> cls_kind (classifyMeld cards) \<noteq> None"
    by (rule classifyMeld_ok)
  show "isValidSet cards \<longrightarrow> classifyMeld cards = \<lparr>cls_ok = True, cls_kind = Some SetMeld\<rparr>"
    by (simp add: classifyMeld_def)
  show "classifyMeld [\<lparr>card_id = i1, card_r = 5, card_s = C\<rparr>, \<lparr>card_id = i2, card_r = 5, card_s = D\<rparr>,
         \<lparr>card_id = i3, card_r = 5, card_s = H\<rparr>] = \<lparr>cls_ok = True, cls_kind = Some SetMeld\<rparr>"
    by (simp add: classifyMeld_def isValidSet_def)
  show "classifyMeld [\<lparr>card_id = i1, card_r = 4, card_s = S\<rparr>, \<lparr>card_id = i2, card_r = 5, card_s = S\<rparr>,
         \<lparr>card_id = i3, card_r = 6, card_s = S\<rparr>] = \<lparr>cls_ok = True, cls_kind = Some RunMeld\<rparr>"
    by (simp add: classifyMeld_def isValidSet_def isValidRun_def)
  show "classifyMeld [\<lparr>card_id = i1, card_r = 13, card_s = S\<rparr>, \<lparr>card_id = i2, card_r = 1, card_s = S\<rparr>,
         \<lparr>card_id = i3, card_r = 2, card_s = S\<rparr>] = \<lparr>cls_ok = False, cls_kind = None\<rparr>"
    by (simp add: classifyMeld_def isValidSet_def isValidRun_def)
qed


theorem classifyMeld_spec_witness:
  "cls_kind (classifyMeld [\<lparr>card_id = ''a'', card_r = 13, card_s = D\<rparr>, \<lparr>card_id = ''b'', card_r = 11, card_s = D\<rparr>,
       \<lparr>card_id = ''c'', card_r = 12, card_s = D\<rparr>]) = Some RunMeld
   \<and> cls_kind (classifyMeld [\<lparr>card_id = ''a'', card_r = 7, card_s = S\<rparr>, \<lparr>card_id = ''b'', card_r = 7, card_s = C\<rparr>,
       \<lparr>card_id = ''c'', card_r = 7, card_s = H\<rparr>, \<lparr>card_id = ''d'', card_r = 7, card_s = D\<rparr>]) = Some SetMeld
   \<and> cls_kind (classifyMeld [\<lparr>card_id = ''a'', card_r = 12, card_s = S\<rparr>, \<lparr>card_id = ''b'', card_r = 13, card_s = S\<rparr>,
       \<lparr>card_id = ''c'', card_r = 1, card_s = S\<rparr>]) \<noteq> Some RunMeld"
proof (intro conjI)
  let ?run = "[\<lparr>card_id = ''a'', card_r = 13, card_s = D\<rparr>, \<lparr>card_id = ''b'', card_r = 11, card_s = D\<rparr>,
       \<lparr>card_id = ''c'', card_r = 12, card_s = D\<rparr>]"
  let ?set = "[\<lparr>card_id = ''a'', card_r = 7, card_s = S\<rparr>, \<lparr>card_id = ''b'', card_r = 7, card_s = C\<rparr>,
       \<lparr>card_id = ''c'', card_r = 7, card_s = H\<rparr>, \<lparr>card_id = ''d'', card_r = 7, card_s = D\<rparr>]"
  let ?bad = "[\<lparr>card_id = ''a'', card_r = 12, card_s = S\<rparr>, \<lparr>card_id = ''b'', card_r = 13, card_s = S\<rparr>,
       \<lparr>card_id = ''c'', card_r = 1, card_s = S\<rparr>]"
  have "\<forall>i. 0 < i \<and> i < length ?run \<longrightarrow> sort (map card_r ?run) ! i = sort (map card_r ?run) ! (i - 1) + 1"
    by (auto simp: less_Suc_eq numeral_3_eq_3)
  then show "cls_kind (classifyMeld ?run) = Some RunMeld"
    using classifyMeld_spec[of ?run] by simp
  show "cls_kind (classifyMeld ?set) = Some SetMeld"
    using classifyMeld_spec[of ?set] by simp
  have "\<not> (\<forall>i. 0 < i \<and> i < length ?bad \<longrightarrow> sort (map card_r ?bad) ! i = sort (map card_r ?bad) ! (i - 1) + 1)"
    by (auto intro: exI[of _ 1])
  then show "cls_kind (classifyMeld ?bad) \<noteq> Some RunMeld"
    using classifyMeld_spec[of ?bad] by blast
qed

section \<open>Claiming a seat\<close>

lemma runAll_claims_occupied:
  "runAll (claims cs) (Some sl) = (map (\<lambda>(uid, name). uid = slot_uid sl) cs, Some sl)"
proof (induction cs)
  case Nil
  show ?case by (simp add: claims_def)
next
  case (Cons c cs)
  obtain u n where c: "c = (u, n)" by (cases c)
  have r: "runTransaction (claimSlot u n) (Some sl) = \<lparr>committed = (u = slot_uid sl), snapshot = Some sl\<rparr>"
    by (auto simp add: runTransaction_def claimSlot_def)
  have "runAll (claims (c # cs)) (Some sl) =
      (let res = runTransaction (claimSlot u n) (Some sl); (bs, final) = runAll (claims cs) (snapshot res)
       in (committed res # bs, final))"
    by (simp add: claims_def c)
  also have "\<dots> = ((u = slot_uid sl) # map (\<lambda>(uid, name). uid = slot_uid sl) cs, Some sl)"
    by (simp add: r Cons.IH)
  finally show ?case by (simp add: c)
qed

lemma runAll_claims_empty:
  "runAll (claims ((u, n) # cs)) None =
     (True # map (\<lambda>(uid, name). uid = u) cs, Some \<lparr>slot_uid = u, slot_name = n, slot_ready = False\<rparr>)"
proof -
  have r: "runTransaction (claimSlot u n) None =
      \<lparr>committed = True, snapshot = Some \<lparr>slot_uid = u, slot_name = n, slot_ready = False\<rparr>\<rparr>"
    by (simp add: runTransaction_def claimSlot_def)
  have "runAll (claims ((u, n) # cs)) None =
      (let res = runTransaction (claimSlot u n) None; (bs, final) = runAll (claims cs) (snapshot res)
       in (committed res # bs, final))"
    by (simp add: claims_def)
  also have "\<dots> = (True # map (\<lambda>(uid, name). uid = u) cs, Some \<lparr>slot_uid = u, slot_name = n, slot_ready = False\<rparr>)"
    by (simp add: r runAll_claims_occupied)
  finally show ?thesis .
qed

lemma others_lose:
  assumes "u \<notin> fst ` set cs"
  shows "map (\<lambda>(uid, name). uid = u) cs = replicate (length cs) False"
  using assms by (induction cs) auto

text \<open>
  Claim C3, as amended. The update function of \<^verbatim>\<open>claimSlot\<close> has three cases: an empty seat
  becomes the caller's, not ready; a seat the caller holds is written back unchanged and
  the call commits; a seat held by somebody else aborts, the caller sees
  \<^verbatim>\<open>committed = false\<close> and the seat stays as it was. Of the claims racing for one empty
  seat, the first serialised commits and every later one commits exactly when it comes
  from that same identity; so with pairwise different identities exactly one commits.
\<close>

theorem claimSlot_contract:
  "claimSlot uid name None = Write (Some \<lparr>slot_uid = uid, slot_name = name, slot_ready = False\<rparr>)
   \<and> (slot_uid sl = uid \<longrightarrow>
        claimSlot uid name (Some sl) = Write (Some sl) \<and>
        runTransaction (claimSlot uid name) (Some sl) = \<lparr>committed = True, snapshot = Some sl\<rparr>)
   \<and> (slot_uid sl \<noteq> uid \<longrightarrow>
        claimSlot uid name (Some sl) = Abort \<and>
        runTransaction (claimSlot uid name) (Some sl) = \<lparr>committed = False, snapshot = Some sl\<rparr>)
   \<and> runAll (claims ((uid, name) # cs)) None =
        (True # map (\<lambda>(uid', name'). uid' = uid) cs,
         Some \<lparr>slot_uid = uid, slot_name = name, slot_ready = False\<rparr>)
   \<and> (distinct (map fst ((uid, name) # cs)) \<longrightarrow>
        fst (runAll (claims ((uid, name) # cs)) None) = True # replicate (length cs) False)"
proof (intro conjI impI)
  show "claimSlot uid name None = Write (Some \<lparr>slot_uid = uid, slot_name = name, slot_ready = False\<rparr>)"
    by (simp add: claimSlot_def)
  show "runAll (claims ((uid, name) # cs)) None =
        (True # map (\<lambda>(uid', name'). uid' = uid) cs,
         Some \<lparr>slot_uid = uid, slot_name = name, slot_ready = False\<rparr>)"
    by (rule runAll_claims_empty)
next
  assume "slot_uid sl = uid"
  then show "claimSlot uid name (Some sl) = Write (Some sl)"
    and "runTransaction (claimSlot uid name) (Some sl) = \<lparr>committed = True, snapshot = Some sl\<rparr>"
    by (simp_all add: claimSlot_def runTransaction_def)
next
  assume "slot_uid sl \<noteq> uid"
  then show "claimSlot uid name (Some sl) = Abort"
    and "runTransaction (claimSlot uid name) (Some sl) = \<lparr>committed = False, snapshot = Some sl\<rparr>"
    by (simp_all add: claimSlot_def runTransaction_def)
next
  assume "distinct (map fst ((uid, name) # cs))"
  then have "uid \<notin> fst ` set cs" by simp
  then show "fst (runAll (claims ((uid, name) # cs)) None) = True # replicate (length cs) False"
    by (simp add: runAll_claims_empty others_lose)
qed

theorem claimSlot_contract_witness:
  "runTransaction (claimSlot ''bob'' ''Bob'') (Some \<lparr>slot_uid = ''ann'', slot_name = ''Ann'', slot_ready = True\<rparr>)
     = \<lparr>committed = False, snapshot = Some \<lparr>slot_uid = ''ann'', slot_name = ''Ann'', slot_ready = True\<rparr>\<rparr>
   \<and> runTransaction (claimSlot ''ann'' ''Ann'') (Some \<lparr>slot_uid = ''ann'', slot_name = ''Ann'', slot_ready = True\<rparr>)
     = \<lparr>committed = True, snapshot = Some \<lparr>slot_uid = ''ann'', slot_name = ''Ann'', slot_ready = True\<rparr>\<rparr>
   \<and> fst (runAll (claims [(''ann'', ''Ann''), (''bob'', ''Bob''), (''cy'', ''Cy'')]) None) = [True, False, False]"
proof (intro conjI)
  let ?ann = "\<lparr>slot_uid = ''ann'', slot_name = ''Ann'', slot_ready = True\<rparr>"
  have "slot_uid ?ann \<noteq> ''bob''" by simp
  with claimSlot_contract[of "''bob''" "''Bob''" ?ann "[]"]
  show "runTransaction (claimSlot ''bob'' ''Bob'') (Some ?ann) = \<lparr>committed = False, snapshot = Some ?ann\<rparr>"
    by blast
  have "slot_uid ?ann = ''ann''" by simp
  with claimSlot_contract[of "''ann''" "''Ann''" ?ann "[]"]
  show "runTransaction (claimSlot ''ann'' ''Ann'') (Some ?ann) = \<lparr>committed = True, snapshot = Some ?ann\<rparr>"
    by blast
  have "distinct (map fst [(''ann'', ''Ann''), (''bob'', ''Bob''), (''cy'', ''Cy'')])" by simp
  with claimSlot_contract[of "''ann''" "''Ann''" ?ann "[(''bob'', ''Bob''), (''cy'', ''Cy'')]"]
  have "fst (runAll (claims [(''ann'', ''Ann''), (''bob'', ''Bob''), (''cy'', ''Cy'')]) None)
      = True # replicate (length [(''bob'', ''Bob''), (''cy'', ''Cy'')]) False" by blast
  then show "fst (runAll (claims [(''ann'', ''Ann''), (''bob'', ''Bob''), (''cy'', ''Cy'')]) None) = [True, False, False]"
    by (simp add: numeral_2_eq_2)
qed

text \<open>
  As stated, with any set of concurrent claims, the claim fails: two claims of one identity
  on an empty seat both commit, the second as the refresh of the first.
\<close>

theorem claimSlot_same_identity_counterexample:
  "fst (runAll (claims [(''ann'', ''Ann''), (''ann'', ''Ann'')]) None) = [True, True]"
  by (simp add: claims_def runTransaction_def claimSlot_def)


section \<open>Starting the game\<close>

lemma canStart_iff:
  "canStart l \<longleftrightarrow> statusOf l = LobbyStatus \<and> phaseOf l = LobbyPhase \<and>
     2 \<le> length (occupiedSeats l) \<and> length (occupiedSeats l) \<le> 4 \<and>
     (\<forall>p\<in>set (occupiedSeats l). slot_ready p)"
  by (auto simp add: canStart_def everyoneReady_def list_all_iff)

lemma startGameBySlot1_Some:
  assumes "startGameBySlot1 uid now room (Some l) = Some r'"
  shows "truthy_str uid \<and> slot1Uid l = uid \<and> canStart l \<and>
         r' = l\<lparr>status := Some PlayingStatus, game := Some (initialGame now (slot1Uid l))\<rparr>"
  using assms by (simp add: startGameBySlot1_def split: if_splits)

lemma every_ready_True:
  "every_ready ps = Some True \<Longrightarrow> \<forall>x\<in>set ps. \<exists>p. x = Some p \<and> slot_ready p"
  by (induction ps rule: every_ready.induct) (auto split: if_splits)

lemma startGameBySlot1_tx_Some:
  assumes "startGameBySlot1_tx uid now room (Some l) = Some r'"
  shows "truthy_str uid \<and> slot1Uid l = uid \<and> canStart l \<and> status r' = Some PlayingStatus"
proof -
  from assms obtain ready where
    t: "truthy_str uid" and e: "latestEveryoneReady l = Some ready" and u: "slot1Uid l = uid" and
    c: "statusOf l = LobbyStatus \<and> phaseOf l = LobbyPhase \<and> 2 \<le> length (latestPlayers l) \<and> ready" and
    r: "r' = l\<lparr>game := snapshot (runTransaction (startTransition now) (game l)), status := Some PlayingStatus\<rparr>"
    by (auto simp add: startGameBySlot1_tx_def split: if_splits option.splits)
  from c obtain ss where ss: "slots l = Some ss" by (cases "slots l") (auto simp add: latestPlayers_def)
  from e c have "every_ready (latestPlayers l) = Some True"
    by (auto simp add: latestEveryoneReady_def split: if_splits)
  from every_ready_True[OF this] ss
  obtain p1 p2 p3 p4 where
    s: "seat1 ss = Some p1" "seat2 ss = Some p2" "seat3 ss = Some p3" "seat4 ss = Some p4" and
    rd: "slot_ready p1" "slot_ready p2" "slot_ready p3" "slot_ready p4"
    by (auto simp add: latestPlayers_def)
  have "occupiedSeats l = [p1, p2, p3, p4]" by (simp add: occupiedSeats_def seatsOf_def ss s)
  with rd c have "canStart l" by (simp add: canStart_def everyoneReady_def)
  with t u r show ?thesis by simp
qed

text \<open>
  Claim C4. \<^verbatim>\<open>startGameBySlot1\<close> writes nothing when the fetched room is missing, and when
  it writes (in either revision of the room page) the fetched room has the caller on
  seat 1, status and phase \<^verbatim>\<open>lobby\<close>, between two and four occupied seats and every
  occupied seat ready. The room written by the current page is then \<^verbatim>\<open>playing\<close>, with
  the caller to move and the seats untouched.
\<close>

theorem startGameBySlot1_gate:
  "startGameBySlot1 uid now room None = None
   \<and> startGameBySlot1_tx uid now room None = None
   \<and> (startGameBySlot1 uid now room (Some l) \<noteq> None \<or> startGameBySlot1_tx uid now room (Some l) \<noteq> None \<longrightarrow>
        truthy_str uid \<and> slot1Uid l = uid \<and>
        statusOf l = LobbyStatus \<and> phaseOf l = LobbyPhase \<and>
        2 \<le> length (occupiedSeats l) \<and> length (occupiedSeats l) \<le> 4 \<and>
        (\<forall>p\<in>set (occupiedSeats l). slot_ready p))
   \<and> (startGameBySlot1 uid now room (Some l) = Some r' \<longrightarrow>
        status r' = Some PlayingStatus \<and> phaseOf r' = PlayingPhase \<and>
        map_option turnUid (game r') = Some uid \<and> slots r' = slots l)"
proof (intro conjI impI)
  show "startGameBySlot1 uid now room None = None"
    by (simp add: startGameBySlot1_def)
  show "startGameBySlot1_tx uid now room None = None"
    by (simp add: startGameBySlot1_tx_def)
next
  assume h: "startGameBySlot1 uid now room (Some l) \<noteq> None \<or> startGameBySlot1_tx uid now room (Some l) \<noteq> None"
  have g: "truthy_str uid \<and> slot1Uid l = uid \<and> canStart l"
  proof (cases "startGameBySlot1 uid now room (Some l)")
    case (Some r)
    then show ?thesis using startGameBySlot1_Some by blast
  next
    case None
    with h obtain r where "startGameBySlot1_tx uid now room (Some l) = Some r" by auto
    then show ?thesis using startGameBySlot1_tx_Some by blast
  qed
  then have c: "statusOf l = LobbyStatus \<and> phaseOf l = LobbyPhase \<and>
     2 \<le> length (occupiedSeats l) \<and> length (occupiedSeats l) \<le> 4 \<and>
     (\<forall>p\<in>set (occupiedSeats l). slot_ready p)"
    using canStart_iff[of l] by blast
  from g show "truthy_str uid" by blast
  from g show "slot1Uid l = uid" by blast
  from c show "statusOf l = LobbyStatus" by blast
  from c show "phaseOf l = LobbyPhase" by blast
  from c show "2 \<le> length (occupiedSeats l)" by blast
  from c show "length (occupiedSeats l) \<le> 4" by blast
  from c show "\<forall>p\<in>set (occupiedSeats l). slot_ready p" by blast
next
  assume h: "startGameBySlot1 uid now room (Some l) = Some r'"
  from startGameBySlot1_Some[OF h]
  have r: "r' = l\<lparr>status := Some PlayingStatus, game := Some (initialGame now (slot1Uid l))\<rparr>"
    and u: "slot1Uid l = uid" by blast+
  show "status r' = Some PlayingStatus" by (simp add: r)
  show "phaseOf r' = PlayingPhase" by (simp add: r phaseOf_def initialGame_def)
  show "map_option turnUid (game r') = Some uid" by (simp add: r u initialGame_def)
  show "slots r' = slots l" by (simp add: r)
qed

theorem startGameBySlot1_gate_witness:
  "startGameBySlot1 (Some ''ann'') 5 (Some demoRoom) (Some demoRoom) \<noteq> None
   \<and> length (occupiedSeats demoRoom) = 2
   \<and> slot1Uid demoRoom = Some ''ann''
   \<and> startGameBySlot1 (Some ''bob'') 5 (Some demoRoom) (Some demoRoom) = None
   \<and> startGameBySlot1 (Some ''ann'') 5 (Some demoRoom) (Some (demoRoom\<lparr>status := Some PlayingStatus\<rparr>)) = None"
proof (intro conjI)
  show s: "startGameBySlot1 (Some ''ann'') 5 (Some demoRoom) (Some demoRoom) \<noteq> None"
    by (simp add: startGameBySlot1_def demoRoom_def truthy_str_def slot1Uid_def seatsOf_def canStart_def
        everyoneReady_def occupiedSeats_def statusOf_def phaseOf_def)
  from s startGameBySlot1_gate[of "Some ''ann''" 5 "Some demoRoom" demoRoom]
  have c: "2 \<le> length (occupiedSeats demoRoom) \<and> slot1Uid demoRoom = Some ''ann''" by blast
  moreover have "length (occupiedSeats demoRoom) \<le> 2"
    by (simp add: demoRoom_def occupiedSeats_def seatsOf_def)
  ultimately show "length (occupiedSeats demoRoom) = 2" by linarith
  from c show "slot1Uid demoRoom = Some ''ann''" by blast
  have "slot1Uid demoRoom \<noteq> Some ''bob''" by (simp add: demoRoom_def slot1Uid_def seatsOf_def)
  with startGameBySlot1_gate[of "Some ''bob''" 5 "Some demoRoom" demoRoom]
  show "startGameBySlot1 (Some ''bob'') 5 (Some demoRoom) (Some demoRoom) = None" by blast
  have "statusOf (demoRoom\<lparr>status := Some PlayingStatus\<rparr>) \<noteq> LobbyStatus" by (simp add: statusOf_def)
  with startGameBySlot1_gate[of "Some ''ann''" 5 "Some demoRoom" "demoRoom\<lparr>status := Some PlayingStatus\<rparr>"]
  show "startGameBySlot1 (Some ''ann'') 5 (Some demoRoom) (Some (demoRoom\<lparr>status := Some PlayingStatus\<rparr>)) = None"
    by blast
qed

section \<open>Helper facts about the primitives and the turn actions\<close>

lemma findIndex_Some:
  "findIndex p xs = Some i \<Longrightarrow> i < length xs \<and> p (xs ! i)"
proof (induction xs arbitrary: i)
  case Nil
  then show ?case by simp
next
  case (Cons x xs)
  show ?case
  proof (cases "p x")
    case True
    with Cons.prems show ?thesis by simp
  next
    case False
    with Cons.prems obtain j where j: "findIndex p xs = Some j" "i = Suc j" by auto
    with Cons.IH[of j] show ?thesis by simp
  qed
qed


lemma findIndex_map: "findIndex p (map f xs) = findIndex (\<lambda>x. p (f x)) xs"
  by (induction xs) auto

lemma map_of_obj_modify:
  "map_of (obj_modify k f ps) k' = (if k' = k then map_option f (map_of ps k) else map_of ps k')"
  by (induction ps) auto

lemma keys_obj_modify: "map fst (obj_modify k f ps) = map fst ps"
  by (induction ps) auto

lemma pickCards_ids:
  "pickCards ids hand = Some (picked, pickedIdx) \<Longrightarrow> map card_id picked = ids"
proof (induction ids arbitrary: picked pickedIdx)
  case Nil
  then show ?case by simp
next
  case (Cons i ids)
  from Cons.prems obtain idx pk pi where
    f: "findIndex (\<lambda>c. card_id c = i) hand = Some idx" and
    r: "pickCards ids hand = Some (pk, pi)" and
    e: "picked = hand ! idx # pk"
    by (auto split: option.splits)
  from findIndex_Some[OF f] have "card_id (hand ! idx) = i" by simp
  with Cons.IH[OF r] e show ?case by simp
qed

lemma hasDiscardCard_iff:
  "hasDiscardCard origins picked \<longleftrightarrow>
     (\<exists>i\<in>set (map card_id picked). \<exists>og. origins i = Some og \<and> origin_kind og = FromDiscard)"
  by (auto simp add: hasDiscardCard_def list_ex_iff split: option.splits)

lemma handOf_modify:
  "handOf (g\<lparr>players := obj_modify uid f (players g)\<rparr>) v =
     (if v = uid then (case map_of (players g) uid of None \<Rightarrow> [] | Some pl \<Rightarrow> player_hand (f pl))
      else handOf g v)"
  by (simp add: handOf_def map_of_obj_modify split: option.splits)

lemma takeTopDiscard_short:
  "length (discard g) < 2 \<Longrightarrow> takeTopDiscard uid (Some g) = Write (Some g)"
  by (simp add: takeTopDiscard_def)

lemma takeTopDiscard_takes:
  assumes "\<not> notMyStep uid DrawStep g" and "map_of (players g) uid = Some pl" and "2 \<le> length (discard g)"
    and "player_hand pl \<noteq> []"
  shows "takeTopDiscard uid (Some g) = Write (Some (g\<lparr>
           discard := butlast (discard g),
           players := obj_modify uid
             (\<lambda>p. p\<lparr>player_hand := player_hand p @ [dc_card (last (discard g))],
                    player_lastTurnTookDiscardFromUid := dc_fromUid (last (discard g))\<rparr>) (players g),
           cardOrigins := (cardOrigins g)(card_id (dc_card (last (discard g))) \<mapsto>
             \<lparr>origin_kind = FromDiscard, origin_fromUid = dc_fromUid (last (discard g))\<rparr>),
           step := DiscardStep\<rparr>))"
  using assms by (simp add: takeTopDiscard_def Let_def)

lemma eatHead_eats:
  assumes "\<not> notMyStep uid DrawStep g" and "map_of (players g) uid = Some pl"
    and "discard g = [] \<or> player_hand pl \<noteq> []"
  shows "eatHead uid now (Some g) = Write (Some (g\<lparr>
           players := obj_modify uid
             (\<lambda>p. p\<lparr>player_hand := player_hand p @ map dc_card (discard g),
                    player_lastTurnTookDiscardFromUid := None\<rparr>) (players g),
           cardOrigins := fold (\<lambda>c m. m(card_id (dc_card c) \<mapsto>
               \<lparr>origin_kind = FromDiscard, origin_fromUid = dc_fromUid c\<rparr>)) (discard g) (cardOrigins g),
           stock := snd (pop (stock g)),
           discard := headOf (fst (pop (stock g))) now,
           headCardId := map_option card_id (fst (pop (stock g))),
           step := DiscardStep\<rparr>))"
  using assms by (simp add: eatHead_def Let_def split: prod.splits)

lemma discardCardById_discards:
  assumes "\<not> notMyStep uid DiscardStep g" and "findIndex (\<lambda>c. card_id c = cid) (handOf g uid) = Some idx"
  shows "discardCardById uid cid now (Some g) = Write (Some (g\<lparr>
           players := obj_modify uid (\<lambda>p. p\<lparr>player_hand := splice1 idx (handOf g uid)\<rparr>) (players g),
           discard := discard g @ [\<lparr>dc_card = handOf g uid ! idx, dc_fromUid = Some uid, dc_at = now\<rparr>],
           cardOrigins := (cardOrigins g)(card_id (handOf g uid ! idx) \<mapsto>
             \<lparr>origin_kind = FromDiscard, origin_fromUid = Some uid\<rparr>),
           turnUid := nextUid uid (Object_keys (players g)),
           step := DrawStep\<rparr>))"
  using assms by (simp add: discardCardById_def Let_def)

lemma length_headOf: "length (headOf (fst (pop xs)) now) = (if xs = [] then 0 else 1)"
  by (cases xs) (simp_all add: headOf_def pop_def)

text \<open>What the store's key order changes in a game, and what it leaves alone.\<close>

lemma map_of_insort_key:
  "map_of (insort_key fst kv ps) = (map_of ps)(fst kv \<mapsto> snd kv)"
proof (induction ps)
  case Nil
  then show ?case by simp
next
  case (Cons p ps)
  show ?case
  proof (cases "fst kv \<le> fst p")
    case True
    then show ?thesis by (auto simp add: fun_eq_iff)
  next
    case False
    then have "fst p \<noteq> fst kv" by auto
    with False Cons.IH show ?thesis by (auto simp add: fun_eq_iff)
  qed
qed

lemma map_of_sort_key: "map_of (sort_key fst ps) = map_of ps"
  by (induction ps) (simp_all add: map_of_insort_key)

lemma keys_sort_key: "map fst (sort_key fst ps) = sort (map fst ps)"
  by (rule properties_for_sort[symmetric]) simp_all

lemma stored_fields:
  "phase (stored g) = phase g" "startedAt (stored g) = startedAt g" "turnUid (stored g) = turnUid g"
  "step (stored g) = step g" "headCardId (stored g) = headCardId g" "stock (stored g) = stock g"
  "discard (stored g) = discard g" "cardOrigins (stored g) = cardOrigins g"
  "tableMelds (stored g) = tableMelds g" "winnerUid (stored g) = winnerUid g"
  "endedAt (stored g) = endedAt g"
  by (simp_all add: stored_def)

lemma keys_stored: "map fst (players (stored g)) = sort (map fst (players g))"
  by (simp add: stored_def keys_sort_key)

lemma handOf_stored: "handOf (stored g) u = handOf g u"
  by (simp add: handOf_def stored_def map_of_sort_key)

lemma map_of_stored: "map_of (players (stored g)) = map_of (players g)"
  by (simp add: stored_def map_of_sort_key)

lemma ended_stored: "ended (stored g) = ended g"
  by (simp add: ended_def stored_fields)

lemma notMyStep_stored: "notMyStep uid st (stored g) = notMyStep uid st g"
  by (simp add: notMyStep_def stored_fields ended_stored)

lemma stored_sorted: "sorted (map fst (players g)) \<Longrightarrow> stored g = g"
  by (simp add: stored_def sort_key_id_if_sorted)

lemma handCards_stored: "handCards (stored g) = handCards g"
proof -
  have "sum_list (map h (sort_key fst ps)) = sum_list (map h ps)"
    for h :: "string \<times> GamePlayer \<Rightarrow> nat" and ps
  proof -
    have "mset (map h (sort_key fst ps)) = mset (map h ps)" by simp
    then show ?thesis by (metis sum_mset_sum_list)
  qed
  then show ?thesis by (simp add: handCards_def stored_def)
qed

lemma handsStockPile_stored: "handsStockPile (stored g) = handsStockPile g"
  by (simp add: handsStockPile_def handCards_stored stored_fields)

lemma meldedCards_stored: "meldedCards (stored g) = meldedCards g"
  by (simp add: meldedCards_def stored_fields)

section \<open>The match of Ann and Bob, state by state\<close>

lemma view_demo1:
  "view demo1 =
     (Some PlayingPhase, False, Some ''ann'', DrawStep,
      [(''ann'', [demoId S 13 51, demoId S 11 49, demoId S 9 47, demoId S 7 45, demoId S 5 43, demoId S 3 41, demoId S 1 39]),
       (''bob'', [demoId S 12 50, demoId S 10 48, demoId S 8 46, demoId S 6 44, demoId S 4 42, demoId S 2 40, demoId H 13 38])],
      37, [(demoId H 12 37, None)], [])"
  by code_simp

lemma view_demo2:
  "view demo2 =
     (Some PlayingPhase, False, Some ''ann'', DiscardStep,
      [(''ann'', [demoId S 13 51, demoId S 11 49, demoId S 9 47, demoId S 7 45, demoId S 5 43, demoId S 3 41, demoId S 1 39, demoId H 12 37]),
       (''bob'', [demoId S 12 50, demoId S 10 48, demoId S 8 46, demoId S 6 44, demoId S 4 42, demoId S 2 40, demoId H 13 38])],
      36, [(demoId H 11 36, None)], [])"
  by code_simp

lemma view_demo3:
  "view demo3 =
     (Some PlayingPhase, False, Some ''bob'', DrawStep,
      [(''ann'', [demoId S 13 51, demoId S 11 49, demoId S 9 47, demoId S 7 45, demoId S 5 43, demoId S 3 41, demoId S 1 39]),
       (''bob'', [demoId S 12 50, demoId S 10 48, demoId S 8 46, demoId S 6 44, demoId S 4 42, demoId S 2 40, demoId H 13 38])],
      36, [(demoId H 11 36, None), (demoId H 12 37, Some ''ann'')], [])"
  by code_simp

lemma view_demo4:
  "view demo4 =
     (Some PlayingPhase, False, Some ''bob'', DiscardStep,
      [(''ann'', [demoId S 13 51, demoId S 11 49, demoId S 9 47, demoId S 7 45, demoId S 5 43, demoId S 3 41, demoId S 1 39]),
       (''bob'', [demoId S 12 50, demoId S 10 48, demoId S 8 46, demoId S 6 44, demoId S 4 42, demoId S 2 40, demoId H 13 38,
                 (demoId H 11 36), demoId H 12 37])],
      35, [(demoId H 10 35, None)], [])"
  by code_simp

lemma view_demo5:
  "view demo5 =
     (Some PlayingPhase, False, Some ''bob'', DiscardStep,
      [(''ann'', [demoId S 13 51, demoId S 11 49, demoId S 9 47, demoId S 7 45, demoId S 5 43, demoId S 3 41, demoId S 1 39]),
       (''bob'', [demoId S 12 50, demoId S 10 48, demoId S 8 46, demoId S 6 44, demoId S 4 42, demoId S 2 40])],
      35, [(demoId H 10 35, None)],
      [(Some RunMeld, [demoId H 11 36, demoId H 12 37, demoId H 13 38])])"
  by code_simp

lemma view_bobOut:
  "view bobOut =
     (Some PlayingPhase, False, Some ''bob'', DrawStep,
      [(''ann'', [demoId S 13 51, demoId S 9 47, demoId S 5 43, demoId S 3 41, demoId H 9 34, demoId H 7 32, demoId H 6 31]),
       (''bob'', [])],
      31,
      [(demoId H 8 33, None), (demoId S 2 40, Some ''bob''), (demoId S 4 42, Some ''bob''), (demoId S 1 39, Some ''ann'')],
      [(Some RunMeld, [demoId S 10 48, demoId S 11 49, demoId S 12 50]),
       (Some RunMeld, [demoId S 6 44, demoId S 7 45, demoId S 8 46]),
       (Some RunMeld, [demoId H 10 35, demoId H 11 36, demoId H 12 37, demoId H 13 38])])"
  by code_simp



lemma view_fields:
  "view g = (ph, en, tu, st, hs, n, pile, melds) \<Longrightarrow>
     phase g = ph \<and> ended g = en \<and> turnUid g = tu \<and> step g = st \<and>
     map fst (players g) = map fst hs \<and>
     map (\<lambda>kv. length (player_hand (snd kv))) (players g) = map (\<lambda>kv. length (snd kv)) hs \<and>
     length (stock g) = n \<and> length (discard g) = length pile \<and>
     map (\<lambda>m. length (meld_cards m)) (tableMelds g) = map (\<lambda>m. length (snd m)) melds"
  by (auto simp add: view_def)

lemma view_hand:
  assumes "view g = (ph, en, tu, st, hs, n, pile, melds)"
  shows "map card_id (handOf g u) = (case map_of hs u of None \<Rightarrow> [] | Some l \<Rightarrow> l)"
proof -
  from assms have hs: "hs = map (\<lambda>kv. (fst kv, map card_id (player_hand (snd kv)))) (players g)"
    by (simp add: view_def)
  have "map_of (map (\<lambda>kv. (fst kv, map card_id (player_hand (snd kv)))) ps) u
      = map_option (\<lambda>p. map card_id (player_hand p)) (map_of ps u)" for ps :: "(string \<times> GamePlayer) list"
    by (induction ps) auto
  then show ?thesis by (simp add: hs handOf_def split: option.splits)
qed

lemma view_player:
  assumes "view g = (ph, en, tu, st, hs, n, pile, melds)"
  shows "map_of (players g) u \<noteq> None \<longleftrightarrow> u \<in> fst ` set hs"
proof -
  from assms have "hs = map (\<lambda>kv. (fst kv, map card_id (player_hand (snd kv)))) (players g)"
    by (simp add: view_def)
  then have "map fst hs = map fst (players g)" by (simp add: comp_def)
  then have "fst ` set hs = fst ` set (players g)" by (metis set_map)
  then show ?thesis by (simp add: map_of_eq_None_iff)
qed

lemma view_pile:
  assumes "view g = (ph, en, tu, st, hs, n, pile, melds)"
  shows "map (\<lambda>d. card_id (dc_card d)) (discard g) = map fst pile"
  using assms by (auto simp add: view_def)

section \<open>Laying a meld needs a card from the pile\<close>

text \<open>
  Claim C7. When none of the selected ids has an origin of kind \<^verbatim>\<open>discard\<close> in
  \<^verbatim>\<open>cardOrigins\<close> (no origin recorded, or one of kind \<^verbatim>\<open>stock\<close>), the update function of
  \<^verbatim>\<open>layMeld\<close> returns the game as it is, whatever the selection: also when it is the
  caller's turn at step \<^verbatim>\<open>discard\<close> and the selected cards are in the hand and form a
  valid set or run.
\<close>

theorem layMeld_needs_pile_origin:
  assumes "\<forall>i\<in>set ids. \<forall>og. cardOrigins g i = Some og \<longrightarrow> origin_kind og \<noteq> FromDiscard"
  shows "layMeld uid ids mid now (Some g) = Write (Some g)"
proof (cases "pickCards ids (handOf g uid)")
  case None
  then show ?thesis by (simp add: layMeld_def)
next
  case (Some pr)
  obtain picked pickedIdx where pr: "pr = (picked, pickedIdx)" by (cases pr)
  from Some pr have "map card_id picked = ids" using pickCards_ids by blast
  with assms have "\<not> hasDiscardCard (cardOrigins g) picked"
    by (auto simp add: hasDiscardCard_iff)
  with Some pr show ?thesis by (simp add: layMeld_def Let_def)
qed

text \<open>
  Bob holds hearts 11, 12 and 13 on his turn at step \<^verbatim>\<open>discard\<close>. With every origin
  recorded as \<^verbatim>\<open>stock\<close> the run is refused and the game is unchanged; with the origins
  of the match (two of the cards came from the pile) the same selection is laid.
\<close>

theorem layMeld_needs_pile_origin_witness:
  "turnUid demo4 = Some ''bob'' \<and> step demo4 = DiscardStep \<and>
   layMeld ''bob'' [demoId H 11 36, demoId H 12 37, demoId H 13 38] ''m1'' 10
       (Some (demo4\<lparr>cardOrigins := \<lambda>i. Some stockOrigin\<rparr>))
     = Write (Some (demo4\<lparr>cardOrigins := \<lambda>i. Some stockOrigin\<rparr>)) \<and>
   map (\<lambda>m. (meld_kind m, map card_id (meld_cards m)))
       (tableMelds (play (layMeld ''bob'' [demoId H 11 36, demoId H 12 37, demoId H 13 38] ''m1'' 10) demo4))
     = [(Some RunMeld, [demoId H 11 36, demoId H 12 37, demoId H 13 38])]"
proof (intro conjI)
  show "turnUid demo4 = Some ''bob''" and "step demo4 = DiscardStep"
    using view_fields[OF view_demo4] by simp_all
  have "\<forall>i\<in>set [demoId H 11 36, demoId H 12 37, demoId H 13 38].
          \<forall>og. cardOrigins (demo4\<lparr>cardOrigins := \<lambda>i. Some stockOrigin\<rparr>) i = Some og \<longrightarrow>
               origin_kind og \<noteq> FromDiscard"
    by (simp add: stockOrigin_def)
  then show "layMeld ''bob'' [demoId H 11 36, demoId H 12 37, demoId H 13 38] ''m1'' 10
       (Some (demo4\<lparr>cardOrigins := \<lambda>i. Some stockOrigin\<rparr>))
     = Write (Some (demo4\<lparr>cardOrigins := \<lambda>i. Some stockOrigin\<rparr>))"
    by (rule layMeld_needs_pile_origin)
  show "map (\<lambda>m. (meld_kind m, map card_id (meld_cards m)))
       (tableMelds (play (layMeld ''bob'' [demoId H 11 36, demoId H 12 37, demoId H 13 38] ''m1'' 10) demo4))
     = [(Some RunMeld, [demoId H 11 36, demoId H 12 37, demoId H 13 38])]"
    using view_demo5 by (simp add: view_def demo5_def)
qed

section \<open>Eating the head, then discarding\<close>

text \<open>
  Claim C6, as amended. On the caller's turn at step \<^verbatim>\<open>draw\<close>, the caller holding at least
  one card, \<^verbatim>\<open>eatHead\<close> moves the whole pile to the caller's hand and leaves as pile the
  card popped from the stock (no card when the stock is empty). The discard of a card of
  the caller's hand that follows, on the game as the store then holds it, puts that card
  on top: the pile is then the new head with the discarded card above it, two cards, and
  it is the discarded card alone only when the stock was empty.
\<close>

theorem eatHead_then_discard:
  assumes "phase g = Some PlayingPhase" and "\<not> ended g" and "turnUid g = Some uid"
    and "step g = DrawStep" and "handOf g uid \<noteq> []"
  shows "\<exists>g1. eatHead uid now (Some g) = Write (Some g1) \<and>
           handOf g1 uid = handOf g uid @ map dc_card (discard g) \<and>
           discard g1 = headOf (fst (pop (stock g))) now \<and>
           stock g1 = snd (pop (stock g)) \<and>
           (\<forall>cid idx. findIndex (\<lambda>c. card_id c = cid) (handOf g1 uid) = Some idx \<longrightarrow>
              (\<exists>g2. discardCardById uid cid now' (Some (stored g1)) = Write (Some g2) \<and>
                 discard g2 = headOf (fst (pop (stock g))) now @
                   [\<lparr>dc_card = handOf g1 uid ! idx, dc_fromUid = Some uid, dc_at = now'\<rparr>] \<and>
                 length (discard g2) = (if stock g = [] then 1 else 2) \<and>
                 stock g2 = stock g1))"
proof -
  let ?g1 = "g\<lparr>players := obj_modify uid
             (\<lambda>p. p\<lparr>player_hand := player_hand p @ map dc_card (discard g),
                    player_lastTurnTookDiscardFromUid := None\<rparr>) (players g),
           cardOrigins := fold (\<lambda>c m. m(card_id (dc_card c) \<mapsto>
               \<lparr>origin_kind = FromDiscard, origin_fromUid = dc_fromUid c\<rparr>)) (discard g) (cardOrigins g),
           stock := snd (pop (stock g)),
           discard := headOf (fst (pop (stock g))) now,
           headCardId := map_option card_id (fst (pop (stock g))),
           step := DiscardStep\<rparr>"
  from assms have my: "\<not> notMyStep uid DrawStep g" by (simp add: notMyStep_def)
  from assms(5) obtain pl where pl: "map_of (players g) uid = Some pl" and ne: "player_hand pl \<noteq> []"
    by (auto simp add: handOf_def split: option.splits)
  from ne have ne': "discard g = [] \<or> player_hand pl \<noteq> []" by simp
  have w: "eatHead uid now (Some g) = Write (Some ?g1)"
    by (rule eatHead_eats[OF my pl ne'])
  have "\<not> notMyStep uid DiscardStep ?g1"
    using assms by (simp add: notMyStep_def ended_def)
  then have my1: "\<not> notMyStep uid DiscardStep (stored ?g1)" by (simp only: notMyStep_stored simp_thms)
  have hand1: "handOf ?g1 uid = handOf g uid @ map dc_card (discard g)"
    by (simp add: handOf_def map_of_obj_modify pl)
  have d1: "discard ?g1 = headOf (fst (pop (stock g))) now" by simp
  have s1: "stock ?g1 = snd (pop (stock g))" by simp
  have second: "\<exists>g2. discardCardById uid cid now' (Some (stored ?g1)) = Write (Some g2) \<and>
                 discard g2 = headOf (fst (pop (stock g))) now @
                   [\<lparr>dc_card = handOf ?g1 uid ! idx, dc_fromUid = Some uid, dc_at = now'\<rparr>] \<and>
                 length (discard g2) = (if stock g = [] then 1 else 2) \<and>
                 stock g2 = stock ?g1"
    if f: "findIndex (\<lambda>c. card_id c = cid) (handOf ?g1 uid) = Some idx" for cid idx
  proof -
    from f have f': "findIndex (\<lambda>c. card_id c = cid) (handOf (stored ?g1) uid) = Some idx"
      by (simp only: handOf_stored)
    from discardCardById_discards[OF my1 f', of now'] obtain g2 where
      w2: "discardCardById uid cid now' (Some (stored ?g1)) = Write (Some g2)" and
      g2: "g2 = (stored ?g1)\<lparr>
           players := obj_modify uid (\<lambda>p. p\<lparr>player_hand := splice1 idx (handOf (stored ?g1) uid)\<rparr>)
             (players (stored ?g1)),
           discard := discard (stored ?g1) @
             [\<lparr>dc_card = handOf (stored ?g1) uid ! idx, dc_fromUid = Some uid, dc_at = now'\<rparr>],
           cardOrigins := (cardOrigins (stored ?g1))(card_id (handOf (stored ?g1) uid ! idx) \<mapsto>
             \<lparr>origin_kind = FromDiscard, origin_fromUid = Some uid\<rparr>),
           turnUid := nextUid uid (Object_keys (players (stored ?g1))),
           step := DrawStep\<rparr>"
      by blast
    have d2: "discard g2 = headOf (fst (pop (stock g))) now @
                   [\<lparr>dc_card = handOf ?g1 uid ! idx, dc_fromUid = Some uid, dc_at = now'\<rparr>]"
      by (simp add: g2 stored_fields handOf_stored)
    have l2: "length (discard g2) = (if stock g = [] then 1 else 2)"
      by (simp only: d2 length_append length_headOf) simp
    have s2: "stock g2 = stock ?g1" by (simp add: g2 stored_fields)
    from w2 d2 l2 s2 show ?thesis by blast
  qed
  from w hand1 d1 s1 second show ?thesis by blast
qed

theorem eatHead_then_discard_witness:
  "\<exists>g1 g2. handOf demo1 ''ann'' \<noteq> [] \<and> eatHead ''ann'' 7 (Some demo1) = Write (Some g1) \<and>
      discardCardById ''ann'' (demoId S 1 39) 8 (Some (stored g1)) = Write (Some g2) \<and>
      length (discard g1) = 1 \<and> length (discard g2) = 2 \<and>
      map dc_fromUid (discard g2) = [None, Some ''ann'']"
proof -
  note f = view_fields[OF view_demo1]
  have p: "phase demo1 = Some PlayingPhase" and e: "\<not> ended demo1" and t: "turnUid demo1 = Some ''ann''"
    and s: "step demo1 = DrawStep" using f by simp_all
  have "length (map card_id (handOf demo1 ''ann'')) = 7"
    by (simp only: view_hand[OF view_demo1]) simp
  then have pl: "handOf demo1 ''ann'' \<noteq> []" by auto
  have st: "stock demo1 \<noteq> []" using f by auto
  from eatHead_then_discard[OF p e t s pl, of 7 8] obtain g1 where
    w1: "eatHead ''ann'' 7 (Some demo1) = Write (Some g1)" and
    h1: "handOf g1 ''ann'' = handOf demo1 ''ann'' @ map dc_card (discard demo1)" and
    d1: "discard g1 = headOf (fst (pop (stock demo1))) 7" and
    nx: "\<forall>cid idx. findIndex (\<lambda>c. card_id c = cid) (handOf g1 ''ann'') = Some idx \<longrightarrow>
              (\<exists>g2. discardCardById ''ann'' cid 8 (Some (stored g1)) = Write (Some g2) \<and>
                 discard g2 = headOf (fst (pop (stock demo1))) 7 @
                   [\<lparr>dc_card = handOf g1 ''ann'' ! idx, dc_fromUid = Some ''ann'', dc_at = 8\<rparr>] \<and>
                 length (discard g2) = (if stock demo1 = [] then 1 else 2) \<and>
                 stock g2 = stock g1)"
    by blast
  have ids: "map card_id (handOf g1 ''ann'') =
      [demoId S 13 51, demoId S 11 49, demoId S 9 47, demoId S 7 45, demoId S 5 43, demoId S 3 41, demoId S 1 39, demoId H 12 37]"
    using view_hand[OF view_demo1, of "''ann''"] view_pile[OF view_demo1] by (simp add: h1 comp_def)
  have "findIndex (\<lambda>i. i = demoId S 1 39)
      [demoId S 13 51, demoId S 11 49, demoId S 9 47, demoId S 7 45, demoId S 5 43, demoId S 3 41, demoId S 1 39, demoId H 12 37]
      = Some 6"
    by code_simp
  then have "findIndex (\<lambda>i. i = demoId S 1 39) (map card_id (handOf g1 ''ann'')) = Some 6"
    by (simp only: ids)
  then have fi: "findIndex (\<lambda>c. card_id c = demoId S 1 39) (handOf g1 ''ann'') = Some 6"
    by (simp add: findIndex_map)
  from nx fi obtain g2 where
    w2: "discardCardById ''ann'' (demoId S 1 39) 8 (Some (stored g1)) = Write (Some g2)" and
    d2: "discard g2 = headOf (fst (pop (stock demo1))) 7 @
                   [\<lparr>dc_card = handOf g1 ''ann'' ! 6, dc_fromUid = Some ''ann'', dc_at = 8\<rparr>]" and
    l2: "length (discard g2) = (if stock demo1 = [] then 1 else 2)"
    by blast
  have l1: "length (discard g1) = 1" using st by (simp add: d1 length_headOf)
  have l2': "length (discard g2) = 2" using st l2 by simp
  have fr: "map dc_fromUid (discard g2) = [None, Some ''ann'']"
    using st by (cases "stock demo1") (simp_all add: d2 headOf_def pop_def)
  show ?thesis
    by (rule exI[of _ g1], rule exI[of _ g2]) (simp only: pl w1 w2 l1 l2' fr simp_thms)
qed

text \<open>
  As stated, with exactly one card on the pile afterwards, the claim fails: after the
  deal Ann eats the head (hearts 12) and discards it again; the pile is then hearts 11,
  the new head from the stock, with hearts 12 above it.
\<close>

theorem eatHead_then_discard_counterexample:
  "turnUid demo1 = Some ''ann'' \<and> step demo1 = DrawStep \<and>
   map (\<lambda>d. card_id (dc_card d)) (discard demo1) = [demoId H 12 37] \<and>
   map (\<lambda>d. card_id (dc_card d))
     (discard (play (discardCardById ''ann'' (demoId H 12 37) 8) (play (eatHead ''ann'' 7) demo1)))
     = [demoId H 11 36, demoId H 12 37]"
proof -
  have "play (discardCardById ''ann'' (demoId H 12 37) 8) (play (eatHead ''ann'' 7) demo1) = demo3"
    by (simp only: demo3_def demo2_def)
  then show ?thesis
    using view_fields[OF view_demo1] view_pile[OF view_demo1] view_pile[OF view_demo3] by simp
qed

section \<open>Seats, objects and the dealing loops\<close>

lemma setInsertAll_distinct: "distinct seen \<Longrightarrow> distinct (setInsertAll seen xs)"
  by (induction xs arbitrary: seen) auto

lemma setInsertAll_set: "set (setInsertAll seen xs) = set seen \<union> set xs"
  by (induction xs arbitrary: seen) auto

lemma setInsertAll_length: "length (setInsertAll seen xs) \<le> length seen + length xs"
proof (induction xs arbitrary: seen)
  case Nil
  show ?case by simp
next
  case (Cons x xs)
  have "length (setInsertAll (if x \<in> set seen then seen else seen @ [x]) xs)
      \<le> length (if x \<in> set seen then seen else seen @ [x]) + length xs"
    by (rule Cons.IH)
  also have "\<dots> \<le> length seen + length (x # xs)" by simp
  finally show ?case by simp
qed

lemma joinedUids_distinct: "distinct (joinedUids ss)"
  by (simp add: joinedUids_def arrayFromSet_def setInsertAll_distinct)

lemma joinedUids_length: "length (joinedUids ss) \<le> 4"
proof -
  let ?f = "\<lambda>sl. case sl of None \<Rightarrow> [] | Some x \<Rightarrow> (if slot_uid x \<noteq> [] then [slot_uid x] else [])"
  have one: "length (?f sl) \<le> 1" for sl by (cases sl) auto
  have "length (setInsertAll [] (concat (map ?f [seat1 ss, seat2 ss, seat3 ss, seat4 ss])))
      \<le> length ([] :: string list) + length (concat (map ?f [seat1 ss, seat2 ss, seat3 ss, seat4 ss]))"
    by (rule setInsertAll_length)
  then have "length (joinedUids ss) \<le> length (concat (map ?f [seat1 ss, seat2 ss, seat3 ss, seat4 ss]))"
    unfolding joinedUids_def arrayFromSet_def by simp
  also have "\<dots> = length (?f (seat1 ss)) + length (?f (seat2 ss)) + length (?f (seat3 ss)) + length (?f (seat4 ss))"
    by simp
  also have "\<dots> \<le> 4" using one[of "seat1 ss"] one[of "seat2 ss"] one[of "seat3 ss"] one[of "seat4 ss"]
    by linarith
  finally show ?thesis .
qed

lemma joinedUids_set:
  "set (joinedUids ss) =
     {u. u \<noteq> [] \<and> (\<exists>sl. Some sl \<in> {seat1 ss, seat2 ss, seat3 ss, seat4 ss} \<and> slot_uid sl = u)}"
  by (auto simp add: joinedUids_def arrayFromSet_def setInsertAll_set split: option.splits if_splits)

lemma obj_set_new: "k \<notin> fst ` set ps \<Longrightarrow> obj_set k v ps = ps @ [(k, v)]"
  by (induction ps) auto

lemma fold_obj_set_distinct:
  "distinct ks \<Longrightarrow> set ks \<inter> fst ` set acc = {} \<Longrightarrow>
     fold (\<lambda>k ps. obj_set k (f k) ps) ks acc = acc @ map (\<lambda>k. (k, f k)) ks"
proof (induction ks arbitrary: acc)
  case Nil
  show ?case by simp
next
  case (Cons k ks)
  from Cons.prems have k: "k \<notin> fst ` set acc" by auto
  have d: "distinct ks" using Cons.prems by simp
  have i: "set ks \<inter> fst ` set (acc @ [(k, f k)]) = {}" using Cons.prems by auto
  show ?case by (simp add: obj_set_new[OF k] Cons.IH[OF d i])
qed

lemma emptyHands_eq: "distinct joined \<Longrightarrow> emptyHands joined = map (\<lambda>p. (p, [])) joined"
  using fold_obj_set_distinct[of joined "[]" "\<lambda>k. []"] by (simp add: emptyHands_def)

lemma map_of_keyed: "k \<in> set ks \<Longrightarrow> map_of (map (\<lambda>k. (k, f k)) ks) k = Some (f k)"
  by (induction ks) auto

lemma handsAt_keys: "distinct (map fst hs) \<Longrightarrow> map (handsAt hs) (map fst hs) = map snd hs"
proof (induction hs)
  case Nil
  show ?case by simp
next
  case (Cons kv hs)
  obtain k v where kv: "kv = (k, v)" by (cases kv)
  from Cons.prems kv have k: "k \<notin> fst ` set hs" and d: "distinct (map fst hs)" by auto
  have "map (handsAt ((k, v) # hs)) (map fst hs) = map (handsAt hs) (map fst hs)"
    using k by (auto simp add: handsAt_def)
  then show ?case using Cons.IH[OF d] by (simp add: kv handsAt_def)
qed

lemma pop_Some: "pop d = (Some c, d') \<Longrightarrow> d = d' @ [c]"
  by (cases d) (auto simp add: pop_def split: if_splits)

lemma pop_None: "pop d = (None, d') \<Longrightarrow> d = [] \<and> d' = []"
  by (cases d) (auto simp add: pop_def)

lemma pop_nonempty: "d \<noteq> [] \<Longrightarrow> pop d = (Some (last d), butlast d)"
  by (cases d) (auto simp add: pop_def)

lemma obj_modify_push_mset:
  "k \<in> fst ` set hs \<Longrightarrow>
     mset (concat (map snd (obj_modify k (\<lambda>h. h @ [c]) hs))) = mset (concat (map snd hs)) + {#c#}"
proof (induction hs)
  case Nil
  then show ?case by simp
next
  case (Cons kv hs)
  obtain k' v where kv: "kv = (k', v)" by (cases kv)
  show ?case
  proof (cases "k' = k")
    case True
    then show ?thesis by (simp add: kv)
  next
    case False
    with Cons.prems kv have "k \<in> fst ` set hs" by auto
    from Cons.IH[OF this] False show ?thesis by (simp add: kv)
  qed
qed

lemma handsAt_modify:
  "handsAt (obj_modify k (\<lambda>h. h @ [c]) hs) p =
     (if p = k \<and> k \<in> fst ` set hs then handsAt hs p @ [c] else handsAt hs p)"
proof (cases "map_of hs k")
  case None
  then have "k \<notin> fst ` set hs" by (simp add: map_of_eq_None_iff)
  with None show ?thesis by (simp add: handsAt_def map_of_obj_modify)
next
  case (Some h)
  then have "k \<in> fst ` set hs" using map_of_eq_None_iff[of hs k] by auto
  with Some show ?thesis by (simp add: handsAt_def map_of_obj_modify)
qed

lemma dealRound_Some:
  assumes "dealRound ps (hs, d) = Some (hs', d')" and "set ps \<subseteq> fst ` set hs"
  shows "map fst hs' = map fst hs \<and>
         mset (concat (map snd hs')) + mset d' = mset (concat (map snd hs)) + mset d \<and>
         length d' + length ps = length d"
  using assms
proof (induction ps arbitrary: hs d)
  case Nil
  then show ?case by simp
next
  case (Cons p ps)
  from Cons.prems(1) obtain c d1 where
    p: "pop d = (Some c, d1)" and
    r: "dealRound ps (obj_modify p (\<lambda>h. h @ [c]) hs, d1) = Some (hs', d')"
    by (auto split: prod.splits option.splits)
  let ?hs1 = "obj_modify p (\<lambda>h. h @ [c]) hs"
  have k1: "map fst ?hs1 = map fst hs" by (rule keys_obj_modify)
  then have "fst ` set ?hs1 = fst ` set hs" by (metis set_map)
  with Cons.prems(2) have sub: "set ps \<subseteq> fst ` set ?hs1" by simp
  from Cons.prems(2) have pk: "p \<in> fst ` set hs" by simp
  from Cons.IH[OF r sub] have
    a: "map fst hs' = map fst ?hs1" and
    b: "mset (concat (map snd hs')) + mset d' = mset (concat (map snd ?hs1)) + mset d1" and
    c: "length d' + length ps = length d1" by blast+
  from pop_Some[OF p] have d: "d = d1 @ [c]" .
  have "mset (concat (map snd hs')) + mset d' = mset (concat (map snd hs)) + mset d"
    by (simp add: b obj_modify_push_mset[OF pk] d)
  moreover have "length d' + length (p # ps) = length d" using c d by simp
  ultimately show ?case using a k1 by simp
qed

lemma dealRound_hand:
  assumes "dealRound ps (hs, d) = Some (hs', d')" and "set ps \<subseteq> fst ` set hs" and "distinct ps"
  shows "length (handsAt hs' q) = length (handsAt hs q) + (if q \<in> set ps then 1 else 0)"
  using assms
proof (induction ps arbitrary: hs d)
  case Nil
  then show ?case by simp
next
  case (Cons p ps)
  from Cons.prems(1) obtain c d1 where
    p: "pop d = (Some c, d1)" and
    r: "dealRound ps (obj_modify p (\<lambda>h. h @ [c]) hs, d1) = Some (hs', d')"
    by (auto split: prod.splits option.splits)
  let ?hs1 = "obj_modify p (\<lambda>h. h @ [c]) hs"
  have "map fst ?hs1 = map fst hs" by (rule keys_obj_modify)
  then have "fst ` set ?hs1 = fst ` set hs" by (metis set_map)
  with Cons.prems(2) have sub: "set ps \<subseteq> fst ` set ?hs1" by simp
  from Cons.prems(2) have pk: "p \<in> fst ` set hs" by simp
  from Cons.prems(3) have dp: "distinct ps" and np: "p \<notin> set ps" by simp_all
  from Cons.IH[OF r sub dp]
  have "length (handsAt hs' q) = length (handsAt ?hs1 q) + (if q \<in> set ps then 1 else 0)" .
  then show ?case using pk np by (auto simp add: handsAt_modify)
qed

lemma dealRound_enough:
  "length ps \<le> length d \<Longrightarrow> dealRound ps (hs, d) \<noteq> None"
proof (induction ps arbitrary: hs d)
  case Nil
  show ?case by simp
next
  case (Cons p ps)
  then have ne: "d \<noteq> []" by auto
  have "length ps \<le> length (butlast d)" using Cons.prems by simp
  from Cons.IH[OF this] show ?case by (simp add: pop_nonempty[OF ne])
qed

lemma dealRounds_Some:
  assumes "dealRounds n ps (hs, d) = Some (hs', d')" and "set ps \<subseteq> fst ` set hs" and "distinct ps"
  shows "map fst hs' = map fst hs \<and>
         mset (concat (map snd hs')) + mset d' = mset (concat (map snd hs)) + mset d \<and>
         length d' + n * length ps = length d \<and>
         (\<forall>q. length (handsAt hs' q) = length (handsAt hs q) + (if q \<in> set ps then n else 0))"
  using assms
proof (induction n arbitrary: hs d)
  case 0
  then show ?case by simp
next
  case (Suc n)
  from Suc.prems(1) obtain hs1 d1 where
    r1: "dealRound ps (hs, d) = Some (hs1, d1)" and
    rn: "dealRounds n ps (hs1, d1) = Some (hs', d')"
    by (auto split: option.splits)
  from dealRound_Some[OF r1 Suc.prems(2)] have
    a1: "map fst hs1 = map fst hs" and
    b1: "mset (concat (map snd hs1)) + mset d1 = mset (concat (map snd hs)) + mset d" and
    c1: "length d1 + length ps = length d" by blast+
  from a1 have "fst ` set hs1 = fst ` set hs" by (metis set_map)
  with Suc.prems(2) have sub: "set ps \<subseteq> fst ` set hs1" by simp
  from Suc.IH[OF rn sub Suc.prems(3)] have
    a: "map fst hs' = map fst hs1" and
    b: "mset (concat (map snd hs')) + mset d' = mset (concat (map snd hs1)) + mset d1" and
    c: "length d' + n * length ps = length d1" and
    h: "\<forall>q. length (handsAt hs' q) = length (handsAt hs1 q) + (if q \<in> set ps then n else 0)"
    by blast+
  have h1: "length (handsAt hs1 q) = length (handsAt hs q) + (if q \<in> set ps then 1 else 0)" for q
    by (rule dealRound_hand[OF r1 Suc.prems(2) Suc.prems(3)])
  have "\<forall>q. length (handsAt hs' q) = length (handsAt hs q) + (if q \<in> set ps then Suc n else 0)"
    using h h1 by simp
  moreover have "length d' + Suc n * length ps = length d" using c c1 by simp
  ultimately show ?case using a a1 b b1 by simp
qed

lemma dealRounds_enough:
  "n * length ps \<le> length d \<Longrightarrow> set ps \<subseteq> fst ` set hs \<Longrightarrow> dealRounds n ps (hs, d) \<noteq> None"
proof (induction n arbitrary: hs d)
  case 0
  show ?case by simp
next
  case (Suc n)
  have "length ps \<le> length d" using Suc.prems(1) by simp
  from dealRound_enough[OF this] obtain hs1 d1 where r1: "dealRound ps (hs, d) = Some (hs1, d1)"
    by fastforce
  from dealRound_Some[OF r1 Suc.prems(2)] have
    a1: "map fst hs1 = map fst hs" and c1: "length d1 + length ps = length d" by blast+
  from a1 have "fst ` set hs1 = fst ` set hs" by (metis set_map)
  with Suc.prems(2) have sub: "set ps \<subseteq> fst ` set hs1" by simp
  have "n * length ps \<le> length d1" using Suc.prems(1) c1 by simp
  from Suc.IH[OF this sub] show ?case by (simp add: r1)
qed

section \<open>Deck and shuffle\<close>

lemma append_eq_clash: "a @ u = b @ v \<Longrightarrow> clash a b"
proof (cases "length a \<le> length b")
  case True
  assume e: "a @ u = b @ v"
  have "take (length a) b = take (length a) (b @ v)" using True by simp
  also have "\<dots> = take (length a) (a @ u)" by (simp only: e)
  also have "\<dots> = a" by simp
  finally show ?thesis by (simp add: clash_def)
next
  case False
  assume e: "a @ u = b @ v"
  have "take (length b) a = take (length b) (a @ u)" using False by simp
  also have "\<dots> = take (length b) (b @ v)" by (simp only: e)
  also have "\<dots> = b" by simp
  finally show ?thesis by (simp add: clash_def)
qed

lemma ranks_clash_free:
  "list_all (\<lambda>x. list_all (\<lambda>y. clash (decimal (nat x) @ ''-'') (decimal (nat y) @ ''-'') \<longrightarrow> x = y) [1..13])
     [1..13]"
  by code_simp

lemma cardId_inj:
  assumes "cardId su rk u = cardId su' rk' u'" and "rk \<in> set [1..13]" and "rk' \<in> set [1..13]"
  shows "su = su' \<and> rk = rk'"
proof -
  have hd: "hd (cardId x r v) = hd (suitName x)" for x r v
    by (cases x) (simp_all add: cardId_def)
  have "hd (suitName su) = hd (cardId su rk u)" by (simp only: hd)
  also have "\<dots> = hd (cardId su' rk' u')" by (simp only: assms(1))
  also have "\<dots> = hd (suitName su')" by (simp only: hd)
  finally have "hd (suitName su) = hd (suitName su')" .
  then have su: "su = su'" by (cases su; cases su') simp_all
  have tl: "cardId x r v = suitName x @ ''-'' @ ((decimal (nat r) @ ''-'') @ v)" for x r v
    by (simp add: cardId_def)
  from assms(1) have "(decimal (nat rk) @ ''-'') @ u = (decimal (nat rk') @ ''-'') @ u'"
    unfolding tl su by (simp only: same_append_eq)
  then have c: "clash (decimal (nat rk) @ ''-'') (decimal (nat rk') @ ''-'')" by (rule append_eq_clash)
  from ranks_clash_free assms(2) assms(3) c have "rk = rk'"
    unfolding list_all_iff by blast
  with su show ?thesis by simp
qed

lemma length_makeDeck: "length (makeDeck uuid) = 52"
  by (simp add: makeDeck_def suits_def)

lemma distinct_deck_pairs: "distinct (List.product suits [1..13])"
proof (rule distinct_product)
  show "distinct suits" by (simp add: suits_def)
  show "distinct [1..13::int]" by simp
qed

lemma makeDeck_ids_distinct: "distinct (map card_id (makeDeck uuid))"
proof -
  let ?L = "List.product suits [1..13]"
  let ?G = "\<lambda>(k, su, rk). cardId su rk (uuid k)"
  have m: "map card_id (makeDeck uuid) = map ?G (enumerate 0 ?L)"
    by (simp add: makeDeck_def split_def)
  have "inj_on ?G (set (enumerate 0 ?L))"
  proof (rule inj_onI)
    fix a b assume a: "a \<in> set (enumerate 0 ?L)" and b: "b \<in> set (enumerate 0 ?L)" and e: "?G a = ?G b"
    obtain k su rk where a': "a = (k, su, rk)" by (cases a) auto
    obtain k' su' rk' where b': "b = (k', su', rk')" by (cases b) auto
    from a a' have ka: "k < length ?L" "?L ! k = (su, rk)" by (simp_all add: in_set_enumerate_eq)
    from b b' have kb: "k' < length ?L" "?L ! k' = (su', rk')" by (simp_all add: in_set_enumerate_eq)
    from ka have "(su, rk) \<in> set ?L" by (metis nth_mem)
    then have r: "rk \<in> set [1..13]" by simp
    from kb have "(su', rk') \<in> set ?L" by (metis nth_mem)
    then have r': "rk' \<in> set [1..13]" by simp
    from e a' b' have "cardId su rk (uuid k) = cardId su' rk' (uuid k')" by simp
    from cardId_inj[OF this r r'] have "?L ! k = ?L ! k'" using ka kb by simp
    then have "k = k'" using ka(1) kb(1) nth_eq_iff_index_eq[OF distinct_deck_pairs] by blast
    with ka kb a' b' show "a = b" by simp
  qed
  moreover have "distinct (enumerate 0 ?L)" by (simp add: distinct_enumerate)
  ultimately show ?thesis by (simp only: m distinct_map)
qed

lemma length_swap: "length (swap i j a) = length a"
  by (simp add: swap_def)

lemma length_shuffleFrom: "length (shuffleFrom rnd n a) = length a"
  by (induction n arbitrary: a) (simp_all add: length_swap)

lemma length_shuffle: "length (shuffle rnd a) = length a"
  by (simp add: shuffle_def length_shuffleFrom)

lemma mset_swap_deck: "i < length a \<Longrightarrow> j < length a \<Longrightarrow> mset (swap i j a) = mset a"
  unfolding swap_def by (rule mset_swap)

lemma mset_shuffleFrom:
  "\<forall>i. rnd i \<le> i \<Longrightarrow> n < length a \<Longrightarrow> mset (shuffleFrom rnd n a) = mset a"
proof (induction n arbitrary: a)
  case 0
  show ?case by simp
next
  case (Suc n)
  have j: "rnd (Suc n) < length a" using Suc.prems by (metis le_less_trans)
  have s: "mset (swap (Suc n) (rnd (Suc n)) a) = mset a"
    by (rule mset_swap_deck[OF Suc.prems(2) j])
  have "n < length (swap (Suc n) (rnd (Suc n)) a)" using Suc.prems(2) by (simp add: length_swap)
  from Suc.IH[OF Suc.prems(1) this] s show ?case by simp
qed

lemma mset_shuffle: "\<forall>i. rnd i \<le> i \<Longrightarrow> mset (shuffle rnd a) = mset a"
proof (cases a)
  case Nil
  then show ?thesis by (simp add: shuffle_def)
next
  case (Cons x xs)
  assume r: "\<forall>i. rnd i \<le> i"
  have "length a - 1 < length a" using Cons by simp
  from mset_shuffleFrom[OF r this] show ?thesis by (simp add: shuffle_def)
qed

lemma shuffled_deck_ids_distinct:
  assumes "\<forall>i. rnd i \<le> i"
  shows "distinct (map card_id (shuffle rnd (makeDeck uuid)))"
proof -
  have "mset (map card_id (shuffle rnd (makeDeck uuid))) = mset (map card_id (makeDeck uuid))"
    by (simp add: mset_shuffle[OF assms])
  then show ?thesis using makeDeck_ids_distinct[of uuid] by (metis mset_eq_imp_distinct_iff)
qed

section \<open>The deal\<close>

lemma dealTx_noop:
  "stock g \<noteq> [] \<or> discard g \<noteq> [] \<Longrightarrow> dealTx deck joined now (Some g) = Write (Some g)"
  by (auto simp add: dealTx_def)

lemma handOf_keyed:
  "p \<in> set ks \<Longrightarrow> handOf (g\<lparr>players := map (\<lambda>k. (k, f k)) ks\<rparr>) p = player_hand (f p)"
  by (simp add: handOf_def map_of_keyed)

lemma dealTx_deals:
  assumes ph: "phase g0 = Some PlayingPhase" and st: "stock g0 = []" and di: "discard g0 = []"
    and dj: "distinct joined" and len: "7 * length joined < length deck"
  shows "\<exists>g. dealTx deck joined now (Some g0) = Write (Some g) \<and>
           map fst (players g) = joined \<and>
           (\<forall>p\<in>set joined. length (handOf g p) = 7) \<and>
           mset (allCards g) = mset deck \<and>
           length (discard g) = 1 \<and>
           length (stock g) + 7 * length joined + 1 = length deck \<and>
           tableMelds g = [] \<and>
           phase g = Some PlayingPhase \<and> step g = DrawStep \<and> \<not> ended g \<and>
           turnUid g = (case turnUid g0 of Some t \<Rightarrow> Some t
                        | None \<Rightarrow> (case joined of [] \<Rightarrow> None | j # _ \<Rightarrow> Some j))"
proof -
  have eh: "emptyHands joined = map (\<lambda>p. (p, [])) joined" by (rule emptyHands_eq[OF dj])
  have keys0: "map fst (emptyHands joined) = joined" by (simp add: eh comp_def)
  then have fk: "fst ` set (emptyHands joined) = set joined" by (metis set_map)
  then have sub: "set joined \<subseteq> fst ` set (emptyHands joined)" by simp
  have "7 * length joined \<le> length deck" using len by simp
  from dealRounds_enough[OF this sub] obtain hs stock0 where
    r: "dealRounds 7 joined (emptyHands joined, deck) = Some (hs, stock0)" by fastforce
  from dealRounds_Some[OF r sub dj] have
    keys: "map fst hs = joined" and
    ms: "mset (concat (map snd hs)) + mset stock0 = mset (concat (map snd (emptyHands joined))) + mset deck" and
    ln: "length stock0 + 7 * length joined = length deck" and
    hl: "\<forall>q. length (handsAt hs q) = length (handsAt (emptyHands joined) q) + (if q \<in> set joined then 7 else 0)"
    by (simp_all add: keys0)
  have e0: "concat (map snd (emptyHands joined)) = []" by (simp add: eh)
  have h0: "handsAt (emptyHands joined) q = []" for q
    by (cases "q \<in> set joined") (simp_all add: handsAt_def eh map_of_keyed map_of_eq_None_iff[THEN iffD2] image_image)
  from ln len have ne: "stock0 \<noteq> []" by auto
  have pp: "pop stock0 = (Some (last stock0), butlast stock0)" by (rule pop_nonempty[OF ne])
  let ?ps = "map (\<lambda>p. (p, newPlayer g0 p (handsAt hs p))) joined"
  have players_eq: "fold (\<lambda>puid ps. obj_set puid (newPlayer g0 puid (handsAt hs puid)) ps) joined [] = ?ps"
    using fold_obj_set_distinct[OF dj, of "[]" "\<lambda>p. newPlayer g0 p (handsAt hs p)"] by simp
  let ?g = "g0\<lparr>stock := butlast stock0,
               discard := headOf (Some (last stock0)) now,
               headCardId := map_option card_id (Some (last stock0)),
               players := ?ps,
               cardOrigins := fold (\<lambda>puid m. fold (\<lambda>c m'. m'(card_id c \<mapsto> stockOrigin)) (handsAt hs puid) m) joined Map.empty,
               tableMelds := [],
               turnUid := (case turnUid g0 of Some t \<Rightarrow> Some t
                           | None \<Rightarrow> (case joined of [] \<Rightarrow> None | j # _ \<Rightarrow> Some j)),
               step := DrawStep, winnerUid := None, endedAt := None\<rparr>"
  have w: "dealTx deck joined now (Some g0) = Write (Some ?g)"
    by (simp add: dealTx_def ph st di r pp players_eq)
  have k: "map fst (players ?g) = joined" by (simp add: comp_def)
  have hands: "\<forall>p\<in>set joined. length (handOf ?g p) = 7"
  proof
    fix p assume p: "p \<in> set joined"
    have "handOf ?g p = handsAt hs p" using p by (simp add: handOf_def map_of_keyed newPlayer_def)
    then show "length (handOf ?g p) = 7" using hl p by (simp add: h0)
  qed
  have dk: "distinct (map fst hs)" using keys dj by simp
  have "concat (map (\<lambda>kv. player_hand (snd kv)) ?ps) = concat (map (handsAt hs) joined)"
    by (simp add: comp_def newPlayer_def)
  also have "\<dots> = concat (map snd hs)" using handsAt_keys[OF dk] keys by simp
  finally have hc: "concat (map (\<lambda>kv. player_hand (snd kv)) ?ps) = concat (map snd hs)" .
  have s0: "stock0 = butlast stock0 @ [last stock0]" using ne by simp
  have ac: "allCards ?g = concat (map (\<lambda>kv. player_hand (snd kv)) ?ps) @ butlast stock0 @ [last stock0]"
    by (simp add: allCards_def headOf_def)
  have "mset (allCards ?g) = mset (concat (map snd hs)) + mset (butlast stock0 @ [last stock0])"
    by (simp only: ac hc mset_append)
  also have "\<dots> = mset (concat (map snd hs)) + mset stock0" by (simp only: s0[symmetric])
  also have "\<dots> = mset deck" by (simp add: ms e0)
  finally have all: "mset (allCards ?g) = mset deck" .
  have ld: "length (discard ?g) = 1" by (simp add: headOf_def)
  have ls0: "length (stock ?g) = length stock0 - 1" by simp
  have ge: "1 \<le> length stock0" using ne by (cases stock0) simp_all
  have ls: "length (stock ?g) + 7 * length joined + 1 = length deck" using ls0 ge ln by linarith
  have r1: "tableMelds ?g = []" by simp
  have r2: "phase ?g = Some PlayingPhase" by (simp add: ph)
  have r3: "step ?g = DrawStep" by simp
  have r4: "\<not> ended ?g" by (simp add: ended_def truthy_str_def truthy_num_def)
  have r5: "turnUid ?g = (case turnUid g0 of Some t \<Rightarrow> Some t
                    | None \<Rightarrow> (case joined of [] \<Rightarrow> None | j # _ \<Rightarrow> Some j))"
    by simp
  show ?thesis
    by (rule exI[of _ ?g]) (intro conjI; fact)
qed

lemma initDeal_deals:
  assumes ph: "phase g0 = Some PlayingPhase" and st: "stock g0 = []" and di: "discard g0 = []"
  shows "\<exists>g. initDeal uuid rnd ss now (Some g0) = Write (Some g) \<and>
           map fst (players g) = joinedUids ss \<and>
           (\<forall>p\<in>set (joinedUids ss). length (handOf g p) = 7) \<and>
           mset (allCards g) = mset (shuffle rnd (makeDeck uuid)) \<and>
           length (discard g) = 1 \<and>
           length (stock g) + 7 * length (joinedUids ss) + 1 = 52 \<and>
           tableMelds g = [] \<and>
           phase g = Some PlayingPhase \<and> step g = DrawStep \<and> \<not> ended g \<and>
           turnUid g = (case turnUid g0 of Some t \<Rightarrow> Some t
                        | None \<Rightarrow> (case joinedUids ss of [] \<Rightarrow> None | j # _ \<Rightarrow> Some j))"
proof -
  have l: "length (shuffle rnd (makeDeck uuid)) = 52" by (simp add: length_shuffle length_makeDeck)
  have "7 * length (joinedUids ss) < length (shuffle rnd (makeDeck uuid))"
    using joinedUids_length[of ss] l by simp
  from dealTx_deals[OF ph st di joinedUids_distinct this, of now] show ?thesis
    by (simp only: initDeal_def l)
qed

section \<open>Counting cards through the turn actions\<close>

lemma handCards_modify:
  "map_of ps uid = Some pl \<Longrightarrow>
     sum_list (map (\<lambda>kv. length (player_hand (snd kv))) (obj_modify uid f ps)) + length (player_hand pl)
       = sum_list (map (\<lambda>kv. length (player_hand (snd kv))) ps) + length (player_hand (f pl))"
  by (induction ps) (auto split: if_splits)

lemma length_pop: "length (snd (pop xs)) + length (headOf (fst (pop xs)) now) = length xs"
  by (cases xs) (simp_all add: pop_def headOf_def)

lemma length_splice1: "i < length xs \<Longrightarrow> length (splice1 i xs) + 1 = length xs"
  by (simp add: splice1_def)

lemma drawStock_counts:
  assumes "drawStock uid (Some g) = Write (Some g')"
  shows "handsStockPile g' = handsStockPile g \<and> meldedCards g' = meldedCards g \<and>
         map fst (players g') = map fst (players g)"
proof (cases "notMyStep uid DrawStep g \<or> stock g = []")
  case True
  with assms have "g' = g" by (auto simp add: drawStock_def split: if_splits)
  then show ?thesis by simp
next
  case False
  with assms obtain pl where pl: "map_of (players g) uid = Some pl" and ne: "player_hand pl \<noteq> []"
    by (auto simp add: drawStock_def split: option.splits if_splits)
  let ?f = "\<lambda>p. p\<lparr>player_hand := player_hand p @ [last (stock g)],
                    player_lastTurnTookDiscardFromUid := None\<rparr>"
  from assms False pl ne have g': "g' = g\<lparr>stock := butlast (stock g),
      players := obj_modify uid ?f (players g),
      cardOrigins := (cardOrigins g)(card_id (last (stock g)) \<mapsto> stockOrigin),
      step := DiscardStep\<rparr>"
    by (simp add: drawStock_def Let_def)
  from handCards_modify[OF pl, of ?f] have h: "handCards g' = handCards g + 1"
    by (simp add: handCards_def g')
  from False have "length (stock g) = length (butlast (stock g)) + 1" by (cases "stock g") auto
  with h have "handsStockPile g' = handsStockPile g" by (simp add: handsStockPile_def g')
  moreover have "meldedCards g' = meldedCards g" by (simp add: meldedCards_def g')
  moreover have "map fst (players g') = map fst (players g)" by (simp add: g' keys_obj_modify)
  ultimately show ?thesis by simp
qed

lemma takeTopDiscard_counts:
  assumes "takeTopDiscard uid (Some g) = Write (Some g')"
  shows "handsStockPile g' = handsStockPile g \<and> meldedCards g' = meldedCards g \<and>
         map fst (players g') = map fst (players g)"
proof (cases "notMyStep uid DrawStep g \<or> length (discard g) < 2")
  case True
  with assms have "g' = g" by (auto simp add: takeTopDiscard_def split: if_splits)
  then show ?thesis by simp
next
  case False
  with assms obtain pl where pl: "map_of (players g) uid = Some pl" and ne: "player_hand pl \<noteq> []"
    by (auto simp add: takeTopDiscard_def split: option.splits if_splits)
  from False have my: "\<not> notMyStep uid DrawStep g" and len: "2 \<le> length (discard g)" by auto
  let ?f = "\<lambda>p. p\<lparr>player_hand := player_hand p @ [dc_card (last (discard g))],
                    player_lastTurnTookDiscardFromUid := dc_fromUid (last (discard g))\<rparr>"
  from assms takeTopDiscard_takes[OF my pl len ne] have g': "g' = g\<lparr>
           discard := butlast (discard g),
           players := obj_modify uid ?f (players g),
           cardOrigins := (cardOrigins g)(card_id (dc_card (last (discard g))) \<mapsto>
             \<lparr>origin_kind = FromDiscard, origin_fromUid = dc_fromUid (last (discard g))\<rparr>),
           step := DiscardStep\<rparr>"
    by simp
  from handCards_modify[OF pl, of ?f] have h: "handCards g' = handCards g + 1"
    by (simp add: handCards_def g')
  from len have "length (discard g) = length (butlast (discard g)) + 1" by simp
  with h have "handsStockPile g' = handsStockPile g" by (simp add: handsStockPile_def g')
  moreover have "meldedCards g' = meldedCards g" by (simp add: meldedCards_def g')
  moreover have "map fst (players g') = map fst (players g)" by (simp add: g' keys_obj_modify)
  ultimately show ?thesis by simp
qed

lemma eatHead_counts:
  assumes "eatHead uid now (Some g) = Write (Some g')"
  shows "handsStockPile g' = handsStockPile g \<and> meldedCards g' = meldedCards g \<and>
         map fst (players g') = map fst (players g)"
proof (cases "notMyStep uid DrawStep g")
  case True
  with assms have "g' = g" by (auto simp add: eatHead_def split: if_splits)
  then show ?thesis by simp
next
  case False
  with assms obtain pl where pl: "map_of (players g) uid = Some pl"
    and ne: "discard g = [] \<or> player_hand pl \<noteq> []"
    by (auto simp add: eatHead_def split: option.splits if_splits)
  let ?f = "\<lambda>p. p\<lparr>player_hand := player_hand p @ map dc_card (discard g),
                    player_lastTurnTookDiscardFromUid := None\<rparr>"
  from assms eatHead_eats[OF False pl ne, of now] have g': "g' = g\<lparr>
           players := obj_modify uid ?f (players g),
           cardOrigins := fold (\<lambda>c m. m(card_id (dc_card c) \<mapsto>
               \<lparr>origin_kind = FromDiscard, origin_fromUid = dc_fromUid c\<rparr>)) (discard g) (cardOrigins g),
           stock := snd (pop (stock g)),
           discard := headOf (fst (pop (stock g))) now,
           headCardId := map_option card_id (fst (pop (stock g))),
           step := DiscardStep\<rparr>"
    by simp
  from handCards_modify[OF pl, of ?f] have h: "handCards g' = handCards g + length (discard g)"
    by (simp add: handCards_def g')
  have "handsStockPile g' = handCards g + length (discard g) +
      (length (snd (pop (stock g))) + length (headOf (fst (pop (stock g))) now))"
    by (simp add: handsStockPile_def h) (simp add: g')
  also have "\<dots> = handsStockPile g" by (simp only: length_pop) (simp add: handsStockPile_def)
  finally have "handsStockPile g' = handsStockPile g" .
  moreover have "meldedCards g' = meldedCards g" by (simp add: meldedCards_def g')
  moreover have "map fst (players g') = map fst (players g)" by (simp add: g' keys_obj_modify)
  ultimately show ?thesis by simp
qed

lemma handOf_nonempty: "handOf g uid \<noteq> [] \<Longrightarrow> \<exists>pl. map_of (players g) uid = Some pl \<and> player_hand pl = handOf g uid"
  by (auto simp add: handOf_def split: option.splits)

lemma discardCardById_counts:
  assumes "discardCardById uid cid now (Some g) = Write (Some g')"
  shows "handsStockPile g' = handsStockPile g \<and> meldedCards g' = meldedCards g \<and>
         map fst (players g') = map fst (players g)"
proof (cases "notMyStep uid DiscardStep g \<or> findIndex (\<lambda>c. card_id c = cid) (handOf g uid) = None")
  case True
  with assms have "g' = g" by (auto simp add: discardCardById_def Let_def split: if_splits)
  then show ?thesis by simp
next
  case False
  then obtain idx where my: "\<not> notMyStep uid DiscardStep g"
    and f: "findIndex (\<lambda>c. card_id c = cid) (handOf g uid) = Some idx" by auto
  from findIndex_Some[OF f] have idx: "idx < length (handOf g uid)" by simp
  then have "handOf g uid \<noteq> []" by auto
  from handOf_nonempty[OF this] obtain pl where pl: "map_of (players g) uid = Some pl"
    and hp: "player_hand pl = handOf g uid" by blast
  let ?f = "\<lambda>p. p\<lparr>player_hand := splice1 idx (handOf g uid)\<rparr>"
  from assms discardCardById_discards[OF my f, of now] have g': "g' = g\<lparr>
           players := obj_modify uid ?f (players g),
           discard := discard g @ [\<lparr>dc_card = handOf g uid ! idx, dc_fromUid = Some uid, dc_at = now\<rparr>],
           cardOrigins := (cardOrigins g)(card_id (handOf g uid ! idx) \<mapsto>
             \<lparr>origin_kind = FromDiscard, origin_fromUid = Some uid\<rparr>),
           turnUid := nextUid uid (Object_keys (players g)),
           step := DrawStep\<rparr>"
    by simp
  from handCards_modify[OF pl, of ?f] length_splice1[OF idx]
  have h: "handCards g' + 1 = handCards g"
    by (simp add: handCards_def g' hp)
  then have "handsStockPile g' = handsStockPile g" by (simp add: handsStockPile_def g')
  moreover have "meldedCards g' = meldedCards g" by (simp add: meldedCards_def g')
  moreover have "map fst (players g') = map fst (players g)" by (simp add: g' keys_obj_modify)
  ultimately show ?thesis by simp
qed

lemma pickCards_idx:
  "pickCards ids hand = Some (picked, pickedIdx) \<Longrightarrow>
     map (\<lambda>i. card_id (hand ! i)) pickedIdx = ids \<and> (\<forall>i\<in>set pickedIdx. i < length hand) \<and>
     length picked = length ids"
proof (induction ids arbitrary: picked pickedIdx)
  case Nil
  then show ?case by simp
next
  case (Cons i ids)
  from Cons.prems obtain idx pk pi where
    f: "findIndex (\<lambda>c. card_id c = i) hand = Some idx" and
    r: "pickCards ids hand = Some (pk, pi)" and
    e: "picked = hand ! idx # pk" "pickedIdx = idx # pi"
    by (auto split: option.splits)
  from findIndex_Some[OF f] have "idx < length hand" "card_id (hand ! idx) = i" by simp_all
  with Cons.IH[OF r] e show ?case by simp
qed

lemma fold_splice1_desc:
  "sorted_wrt (>) ds \<Longrightarrow> \<forall>i\<in>set ds. i < length xs \<Longrightarrow>
     length (fold splice1 ds xs) + length ds = length xs"
proof (induction ds arbitrary: xs)
  case Nil
  show ?case by simp
next
  case (Cons d ds)
  from Cons.prems have d: "d < length xs" and lt: "\<forall>i\<in>set ds. i < d" and s: "sorted_wrt (>) ds"
    by auto
  from length_splice1[OF d] have l: "length (splice1 d xs) + 1 = length xs" .
  have "\<forall>i\<in>set ds. i < length (splice1 d xs)" using lt d l by fastforce
  from Cons.IH[OF s this] l show ?case by simp
qed

lemma length_removePicked:
  assumes "distinct idxs" and "\<forall>i\<in>set idxs. i < length hand"
  shows "length (removePicked idxs hand) + length idxs = length hand"
proof -
  have "sorted_wrt (<) (sort idxs)" using assms(1) by (simp add: strict_sorted_iff)
  then have "sorted_wrt (>) (rev (sort idxs))" by (simp add: sorted_wrt_rev)
  moreover have "\<forall>i\<in>set (rev (sort idxs)). i < length hand" using assms(2) by simp
  ultimately have "length (fold splice1 (rev (sort idxs)) hand) + length (rev (sort idxs)) = length hand"
    by (rule fold_splice1_desc)
  then show ?thesis by (simp add: removePicked_def)
qed

lemma layMeld_counts:
  assumes "layMeld uid ids mid now (Some g) = Write (Some g')" and "distinct ids"
  shows "map fst (players g') = map fst (players g) \<and>
         (g' = g \<or>
          (handsStockPile g' + length ids = handsStockPile g \<and>
           meldedCards g' = meldedCards g + length ids \<and>
           tableMelds g' \<noteq> tableMelds g))"
proof (cases "pickCards ids (handOf g uid)")
  case None
  with assms have "g' = g" by (auto simp add: layMeld_def Let_def split: if_splits)
  then show ?thesis by simp
next
  case (Some pr)
  obtain picked pickedIdx where pr: "pr = (picked, pickedIdx)" by (cases pr)
  show ?thesis
  proof (cases "notMyStep uid DiscardStep g \<or> \<not> cls_ok (classifyMeld picked) \<or>
      \<not> hasDiscardCard (cardOrigins g) picked")
    case True
    with assms Some pr have "g' = g" by (auto simp add: layMeld_def Let_def split: if_splits)
    then show ?thesis by simp
  next
    case False
    with assms Some pr obtain pl where pl: "map_of (players g) uid = Some pl"
      by (auto simp add: layMeld_def Let_def split: option.splits)
    have hp: "player_hand pl = handOf g uid" using pl by (simp add: handOf_def)
    let ?f = "\<lambda>p. p\<lparr>player_hand := removePicked pickedIdx (handOf g uid),
                      player_hasMelded := True,
                      player_scoredCards := player_scoredCards p @ picked\<rparr>"
    from assms False Some pr pl have g': "g' = g\<lparr>
        players := obj_modify uid ?f (players g),
        tableMelds := tableMelds g @
          [\<lparr>meld_id = mid, meld_ownerUid = uid, meld_kind = cls_kind (classifyMeld picked),
            meld_cards = picked, meld_createdAt = now\<rparr>]\<rparr>"
      by (simp add: layMeld_def Let_def)
    from pickCards_idx[OF Some[unfolded pr]] have
      m: "map (\<lambda>i. card_id (handOf g uid ! i)) pickedIdx = ids" and
      b: "\<forall>i\<in>set pickedIdx. i < length (handOf g uid)" and
      lp: "length picked = length ids" by blast+
    from m assms(2) have di: "distinct pickedIdx" by (metis distinct_map)
    from m have li: "length pickedIdx = length ids" by (metis length_map)
    from length_removePicked[OF di b] li
    have lr: "length (removePicked pickedIdx (handOf g uid)) + length ids = length (handOf g uid)" by simp
    from handCards_modify[OF pl, of ?f] lr hp
    have h: "handCards g' + length ids = handCards g"
      by (simp add: handCards_def g')
    then have "handsStockPile g' + length ids = handsStockPile g" by (simp add: handsStockPile_def g')
    moreover have "meldedCards g' = meldedCards g + length ids" by (simp add: meldedCards_def g' lp)
    moreover have "tableMelds g' \<noteq> tableMelds g" by (simp add: g')
    moreover have "map fst (players g') = map fst (players g)" by (simp add: g' keys_obj_modify)
    ultimately show ?thesis by simp
  qed
qed

section \<open>Reachable states\<close>

lemma length_allCards: "length (allCards g) = handsStockPile g + meldedCards g"
  by (simp add: allCards_def handsStockPile_def handCards_def meldedCards_def length_concat comp_def)

lemma initDeal_result:
  assumes "phase g0 = Some PlayingPhase" and "stock g0 = []" and "discard g0 = []"
    and "initDeal uuid rnd ss now (Some g0) = Write (Some g)"
  shows "map fst (players g) = joinedUids ss \<and>
         (\<forall>p\<in>set (joinedUids ss). length (handOf g p) = 7) \<and>
         mset (allCards g) = mset (shuffle rnd (makeDeck uuid)) \<and>
         length (discard g) = 1 \<and> tableMelds g = [] \<and>
         phase g = Some PlayingPhase \<and> step g = DrawStep \<and> \<not> ended g"
proof -
  from initDeal_deals[OF assms(1,2,3), of uuid rnd ss now] obtain g1 where
    w: "initDeal uuid rnd ss now (Some g0) = Write (Some g1)" and
    p: "map fst (players g1) = joinedUids ss \<and>
         (\<forall>p\<in>set (joinedUids ss). length (handOf g1 p) = 7) \<and>
         mset (allCards g1) = mset (shuffle rnd (makeDeck uuid)) \<and>
         length (discard g1) = 1 \<and> tableMelds g1 = [] \<and>
         phase g1 = Some PlayingPhase \<and> step g1 = DrawStep \<and> \<not> ended g1"
    by blast
  from w assms(4) have "g = g1" by simp
  with p show ?thesis by simp
qed

lemma dealt_total:
  assumes "phase g0 = Some PlayingPhase" and "stock g0 = []" and "discard g0 = []"
    and "initDeal uuid rnd ss now (Some g0) = Write (Some g)"
  shows "handsStockPile g = 52 \<and> meldedCards g = 0"
proof -
  from initDeal_result[OF assms] have
    m: "mset (allCards g) = mset (shuffle rnd (makeDeck uuid))" and t: "tableMelds g = []" by blast+
  from m have "length (allCards g) = length (shuffle rnd (makeDeck uuid))" by (rule mset_eq_length)
  then have "length (allCards g) = 52" by (simp add: length_shuffle length_makeDeck)
  moreover have "meldedCards g = 0" by (simp add: meldedCards_def t)
  ultimately show ?thesis by (simp add: length_allCards)
qed

text \<open>
  In a state a match can be in, the keys of the players are the joined identities in key
  order, and the cards in the hands, in the stock, on the pile and in the melds are 52.
\<close>

lemma stored_inv:
  assumes "map fst (players g') = map fst (players g)"
    and "map fst (players g) = sort (joinedUids ss) \<and> handsStockPile g + meldedCards g = 52"
    and "handsStockPile g' + meldedCards g' = handsStockPile g + meldedCards g"
  shows "map fst (players (stored g')) = sort (joinedUids ss) \<and>
         handsStockPile (stored g') + meldedCards (stored g') = 52"
proof -
  from assms(1,2) have "sort (map fst (players g')) = sort (joinedUids ss)" by (simp add: sorted_sort_id)
  with assms(2,3) show ?thesis
    by (simp add: keys_stored handsStockPile_stored meldedCards_stored)
qed

lemma reachable_inv:
  "reachable ss g \<Longrightarrow> map fst (players g) = sort (joinedUids ss) \<and> handsStockPile g + meldedCards g = 52"
proof (induction rule: reachable.induct)
  case (dealt g0 uuid rnd now g)
  from initDeal_result[OF dealt] dealt_total[OF dealt] show ?case
    by (simp add: keys_stored handsStockPile_stored meldedCards_stored)
next
  case (drew g uid g')
  from drawStock_counts[OF drew.hyps(2)] drew.IH show ?case by (intro stored_inv[of g' g]) simp_all
next
  case (took g uid g')
  from takeTopDiscard_counts[OF took.hyps(2)] took.IH show ?case by (intro stored_inv[of g' g]) simp_all
next
  case (ate g uid now g')
  from eatHead_counts[OF ate.hyps(2)] ate.IH show ?case by (intro stored_inv[of g' g]) simp_all
next
  case (discarded g uid cid now g')
  from discardCardById_counts[OF discarded.hyps(2)] discarded.IH show ?case
    by (intro stored_inv[of g' g]) simp_all
next
  case (melded g ids uid mid now g')
  from layMeld_counts[OF melded.hyps(3) melded.hyps(2)] melded.IH show ?case
    by (intro stored_inv[of g' g]) auto
qed

lemma reachable_stored: "reachable ss g \<Longrightarrow> stored g = g"
proof -
  assume "reachable ss g"
  from reachable_inv[OF this] have "sorted (map fst (players g))" by simp
  then show ?thesis by (rule stored_sorted)
qed

lemma play_cases:
  "play f g = g \<or> play f g = stored g \<or> (\<exists>g'. f (Some g) = Write (Some g') \<and> play f g = stored g')"
  by (cases "f (Some g)") (auto simp add: play_def runTransaction_def split: option.splits)

lemma play_Write: "f (Some g) = Write (Some g') \<Longrightarrow> play f g = stored g'"
  by (simp add: play_def runTransaction_def)

lemma reachable_play:
  assumes "reachable ss g"
  shows "reachable ss (play (drawStock uid) g)"
    and "reachable ss (play (takeTopDiscard uid) g)"
    and "reachable ss (play (eatHead uid now) g)"
    and "reachable ss (play (discardCardById uid cid now) g)"
    and "distinct ids \<Longrightarrow> reachable ss (play (layMeld uid ids mid now) g)"
proof -
  from assms have same: "reachable ss (stored g)" "reachable ss g" by (simp_all add: reachable_stored)
  show "reachable ss (play (drawStock uid) g)"
    using play_cases[of "drawStock uid" g] same reachable.drew[OF assms] by metis
  show "reachable ss (play (takeTopDiscard uid) g)"
    using play_cases[of "takeTopDiscard uid" g] same reachable.took[OF assms] by metis
  show "reachable ss (play (eatHead uid now) g)"
    using play_cases[of "eatHead uid now" g] same reachable.ate[OF assms] by metis
  show "reachable ss (play (discardCardById uid cid now) g)"
    using play_cases[of "discardCardById uid cid now" g] same reachable.discarded[OF assms] by metis
  show "reachable ss (play (layMeld uid ids mid now) g)" if "distinct ids"
    using play_cases[of "layMeld uid ids mid now" g] same reachable.melded[OF assms that] by metis
qed

lemma reachable_deal:
  assumes "phase g0 = Some PlayingPhase" and "stock g0 = []" and "discard g0 = []"
  shows "reachable ss (play (initDeal uuid rnd ss now) g0)"
proof -
  from initDeal_deals[OF assms, of uuid rnd ss now] obtain g where
    w: "initDeal uuid rnd ss now (Some g0) = Write (Some g)" by blast
  from reachable.dealt[OF assms w] show ?thesis
    by (simp add: play_Write[of "initDeal uuid rnd ss now" g0 g] w)
qed

lemma reachable_demo:
  "reachable demoSlots demo1 \<and> reachable demoSlots demo2 \<and> reachable demoSlots demo3 \<and>
   reachable demoSlots demo4 \<and> reachable demoSlots demo5"
proof -
  have p0: "phase demo0 = Some PlayingPhase" "stock demo0 = []" "discard demo0 = []"
    by (simp_all add: demo0_def initialGame_def)
  have r1: "reachable demoSlots demo1" unfolding demo1_def by (rule reachable_deal[OF p0])
  have r2: "reachable demoSlots demo2" unfolding demo2_def by (rule reachable_play[OF r1])
  have r3: "reachable demoSlots demo3" unfolding demo3_def by (rule reachable_play[OF r2])
  have r4: "reachable demoSlots demo4" unfolding demo4_def by (rule reachable_play[OF r3])
  have d: "distinct [demoId H 11 36, demoId H 12 37, demoId H 13 38]" by code_simp
  have r5: "reachable demoSlots demo5" unfolding demo5_def by (rule reachable_play(5)[OF r4 d])
  from r1 r2 r3 r4 r5 show ?thesis by simp
qed

lemma reachable_bobOut: "reachable demoSlots bobOut"
proof -
  have r1: "reachable demoSlots demo1" using reachable_demo by blast
  have d1: "distinct [demoId S 10 48, demoId S 11 49, demoId S 12 50]" by code_simp
  have d2: "distinct [demoId S 6 44, demoId S 7 45, demoId S 8 46]" by code_simp
  have d3: "distinct [demoId H 10 35, demoId H 11 36, demoId H 12 37, demoId H 13 38]" by code_simp
  show ?thesis
    unfolding bobOut_def playAll_def fold_simps o_apply
    by (intro reachable_play r1 d1 d2 d3)
qed


section \<open>Conservation of cards\<close>

text \<open>
  Claim C1, as amended. In every state reached from a deal by the turn actions, the cards
  in the hands, in the stock, on the pile and in the melds on the table are 52 together.
  Right after the deal the hands, the stock and the pile hold all 52. \<^verbatim>\<open>drawStock\<close>,
  \<^verbatim>\<open>takeTopDiscard\<close>, \<^verbatim>\<open>eatHead\<close> and \<^verbatim>\<open>discardCardById\<close> keep the number of cards in
  hands, stock and pile. \<^verbatim>\<open>layMeld\<close>, when it lays a meld, takes the selected cards out
  of the hand and puts them on the table: hands, stock and pile lose as many cards as
  the meld has.
\<close>

theorem card_conservation:
  "(reachable ss g \<longrightarrow> handsStockPile g + meldedCards g = 52)
   \<and> (phase gstart = Some PlayingPhase \<and> stock gstart = [] \<and> discard gstart = [] \<and>
       initDeal uuid rnd ss now (Some gstart) = Write (Some gdealt) \<longrightarrow> handsStockPile gdealt = 52)
   \<and> (drawStock uid (Some g) = Write (Some g') \<longrightarrow> handsStockPile g' = handsStockPile g)
   \<and> (takeTopDiscard uid (Some g) = Write (Some g') \<longrightarrow> handsStockPile g' = handsStockPile g)
   \<and> (eatHead uid now (Some g) = Write (Some g') \<longrightarrow> handsStockPile g' = handsStockPile g)
   \<and> (discardCardById uid cid now (Some g) = Write (Some g') \<longrightarrow> handsStockPile g' = handsStockPile g)
   \<and> (distinct ids \<and> layMeld uid ids mid now (Some g) = Write (Some g') \<longrightarrow>
        g' = g \<or> (handsStockPile g' + length ids = handsStockPile g \<and>
                   meldedCards g' = meldedCards g + length ids))"
proof (intro conjI impI)
  assume "reachable ss g"
  then show "handsStockPile g + meldedCards g = 52" using reachable_inv by blast
next
  assume "phase gstart = Some PlayingPhase \<and> stock gstart = [] \<and> discard gstart = [] \<and>
       initDeal uuid rnd ss now (Some gstart) = Write (Some gdealt)"
  then show "handsStockPile gdealt = 52" using dealt_total by blast
next
  assume "drawStock uid (Some g) = Write (Some g')"
  from drawStock_counts[OF this] show "handsStockPile g' = handsStockPile g" by blast
next
  assume "takeTopDiscard uid (Some g) = Write (Some g')"
  from takeTopDiscard_counts[OF this] show "handsStockPile g' = handsStockPile g" by blast
next
  assume "eatHead uid now (Some g) = Write (Some g')"
  from eatHead_counts[OF this] show "handsStockPile g' = handsStockPile g" by blast
next
  assume "discardCardById uid cid now (Some g) = Write (Some g')"
  from discardCardById_counts[OF this] show "handsStockPile g' = handsStockPile g" by blast
next
  assume "distinct ids \<and> layMeld uid ids mid now (Some g) = Write (Some g')"
  then have d: "distinct ids" and w: "layMeld uid ids mid now (Some g) = Write (Some g')" by blast+
  from layMeld_counts[OF w d]
  show "g' = g \<or> (handsStockPile g' + length ids = handsStockPile g \<and>
                   meldedCards g' = meldedCards g + length ids)" by blast
qed

theorem card_conservation_witness:
  "reachable demoSlots demo5 \<and> handsStockPile demo5 + meldedCards demo5 = 52 \<and> meldedCards demo5 = 3"
proof -
  from reachable_demo have r: "reachable demoSlots demo5" by blast
  with card_conservation[of demoSlots demo5] have "handsStockPile demo5 + meldedCards demo5 = 52" by blast
  moreover have "meldedCards demo5 = 3"
    using view_fields[OF view_demo5] by (simp add: meldedCards_def)
  ultimately show ?thesis using r by blast
qed

text \<open>
  As stated, with hands, stock and pile alone adding up to 52 after every action, the
  claim fails at \<^verbatim>\<open>layMeld\<close>: in the match of Ann and Bob the three counts are 52 before
  Bob lays his run of three hearts and 49 after.
\<close>

theorem hands_stock_pile_counterexample:
  "reachable demoSlots demo4 \<and> handsStockPile demo4 = 52 \<and>
   reachable demoSlots (play (layMeld ''bob'' [demoId H 11 36, demoId H 12 37, demoId H 13 38] ''m1'' 10) demo4) \<and>
   handsStockPile (play (layMeld ''bob'' [demoId H 11 36, demoId H 12 37, demoId H 13 38] ''m1'' 10) demo4) = 49"
proof -
  have e: "play (layMeld ''bob'' [demoId H 11 36, demoId H 12 37, demoId H 13 38] ''m1'' 10) demo4 = demo5"
    by (simp only: demo5_def)
  have "handsStockPile demo4 = 52"
    using view_fields[OF view_demo4] by (simp add: handsStockPile_def handCards_def)
  moreover have "handsStockPile demo5 = 49"
    using view_fields[OF view_demo5] by (simp add: handsStockPile_def handCards_def)
  ultimately show ?thesis using reachable_demo by (simp only: e simp_thms)
qed

section \<open>One deal\<close>

lemma runAll_noop: "\<forall>f\<in>set fs. f v = Write v \<Longrightarrow> snd (runAll fs v) = v"
  by (induction fs) (auto simp add: runTransaction_def split: prod.splits)

lemma initDeal_noop:
  "stock g \<noteq> [] \<or> discard g \<noteq> [] \<Longrightarrow> initDeal uuid rnd ss now (Some g) = Write (Some g)"
  unfolding initDeal_def by (rule dealTx_noop)

text \<open>
  Claim C2. The update function of the init effect returns a game whose stock or pile is
  not empty as it is. Run on a started game with stock and pile empty it deals: the
  state it writes holds 52 cards with pairwise different ids (the random index drawn in
  round \<open>i\<close> of the shuffle lying between 0 and \<open>i\<close>) and has a card on the pile, so of
  any number of racing attempts, serialised by the store, the first one deals and the
  state after all of them is the state that first one wrote.
\<close>

theorem bootstrap_once:
  "(stock g \<noteq> [] \<or> discard g \<noteq> [] \<longrightarrow> initDeal uuid rnd ss now (Some g) = Write (Some g))
   \<and> (phase gstart = Some PlayingPhase \<and> stock gstart = [] \<and> discard gstart = [] \<and> (\<forall>i. rnd i \<le> i) \<longrightarrow>
        (\<exists>gdealt. initDeal uuid rnd ss now (Some gstart) = Write (Some gdealt) \<and>
              discard gdealt \<noteq> [] \<and>
              length (allCards gdealt) = 52 \<and> distinct (map card_id (allCards gdealt)) \<and>
              snd (runAll (initDeal uuid rnd ss now # deals others) (Some gstart)) = Some gdealt))"
proof (intro conjI impI)
  assume "stock g \<noteq> [] \<or> discard g \<noteq> []"
  then show "initDeal uuid rnd ss now (Some g) = Write (Some g)" by (rule initDeal_noop)
next
  assume h: "phase gstart = Some PlayingPhase \<and> stock gstart = [] \<and> discard gstart = [] \<and> (\<forall>i. rnd i \<le> i)"
  then have p: "phase gstart = Some PlayingPhase" "stock gstart = []" "discard gstart = []" and r: "\<forall>i. rnd i \<le> i"
    by blast+
  from initDeal_deals[OF p, of uuid rnd ss now] obtain gdealt where
    w: "initDeal uuid rnd ss now (Some gstart) = Write (Some gdealt)" and
    m: "mset (allCards gdealt) = mset (shuffle rnd (makeDeck uuid))" and
    l: "length (discard gdealt) = 1" by blast
  from l have ne: "discard gdealt \<noteq> []" by auto
  from m have "length (allCards gdealt) = length (shuffle rnd (makeDeck uuid))" by (rule mset_eq_length)
  then have len: "length (allCards gdealt) = 52" by (simp add: length_shuffle length_makeDeck)
  from m have "mset (map card_id (allCards gdealt)) = mset (map card_id (shuffle rnd (makeDeck uuid)))"
    by simp
  then have di: "distinct (map card_id (allCards gdealt))"
    using shuffled_deck_ids_distinct[OF r, of uuid] by (metis mset_eq_imp_distinct_iff)
  have "\<forall>f\<in>set (deals others). f (Some gdealt) = Write (Some gdealt)"
    using ne by (auto simp add: deals_def initDeal_noop)
  from runAll_noop[OF this] have sn: "snd (runAll (deals others) (Some gdealt)) = Some gdealt" .
  obtain bs fin where rr: "runAll (deals others) (Some gdealt) = (bs, fin)" by fastforce
  with sn have "fin = Some gdealt" by simp
  with rr have ra: "snd (runAll (initDeal uuid rnd ss now # deals others) (Some gstart)) = Some gdealt"
    by (simp add: w runTransaction_def)
  show "\<exists>gdealt. initDeal uuid rnd ss now (Some gstart) = Write (Some gdealt) \<and>
              discard gdealt \<noteq> [] \<and>
              length (allCards gdealt) = 52 \<and> distinct (map card_id (allCards gdealt)) \<and>
              snd (runAll (initDeal uuid rnd ss now # deals others) (Some gstart)) = Some gdealt"
    by (rule exI[of _ gdealt]) (intro conjI; fact)
qed

theorem bootstrap_once_witness:
  "snd (runAll (deals [(demoUuid, demoRnd, demoSlots, 6), (demoUuid, demoRnd, dupSlots, 7),
                       (demoUuid, demoRnd, demoSlots, 8)]) (Some demo0)) = Some demo1 \<and>
   length (allCards demo1) = 52 \<and> distinct (map card_id (allCards demo1)) \<and>
   initDeal demoUuid demoRnd dupSlots 7 (Some demo1) = Write (Some demo1)"
proof -
  have "phase demo0 = Some PlayingPhase \<and> stock demo0 = [] \<and> discard demo0 = [] \<and> (\<forall>i. demoRnd i \<le> i)"
    by (simp add: demo0_def initialGame_def demoRnd_def)
  with bootstrap_once[where gstart = demo0 and rnd = demoRnd and uuid = demoUuid and ss = demoSlots
      and now = 6 and others = "[(demoUuid, demoRnd, dupSlots, 7), (demoUuid, demoRnd, demoSlots, 8)]"]
  obtain g1 where
    w: "initDeal demoUuid demoRnd demoSlots 6 (Some demo0) = Write (Some g1)" and
    ne: "discard g1 \<noteq> []" and
    l: "length (allCards g1) = 52" and d: "distinct (map card_id (allCards g1))" and
    ra: "snd (runAll (initDeal demoUuid demoRnd demoSlots 6 #
           deals [(demoUuid, demoRnd, dupSlots, 7), (demoUuid, demoRnd, demoSlots, 8)]) (Some demo0)) = Some g1"
    by blast
  have p0: "phase demo0 = Some PlayingPhase" "stock demo0 = []" "discard demo0 = []"
    by (simp_all add: demo0_def initialGame_def)
  from initDeal_result[OF p0 w] have "map fst (players g1) = joinedUids demoSlots" by blast
  then have "map fst (players g1) = [''ann'', ''bob'']"
    by (simp add: joinedUids_def demoSlots_def arrayFromSet_def)
  then have "sorted (map fst (players g1))" by simp
  then have "stored g1 = g1" by (rule stored_sorted)
  with w have e: "demo1 = g1"
    by (simp add: demo1_def play_Write[of "initDeal demoUuid demoRnd demoSlots 6" demo0 g1])
  have "deals [(demoUuid, demoRnd, demoSlots, 6), (demoUuid, demoRnd, dupSlots, 7), (demoUuid, demoRnd, demoSlots, 8)]
      = initDeal demoUuid demoRnd demoSlots 6 # deals [(demoUuid, demoRnd, dupSlots, 7), (demoUuid, demoRnd, demoSlots, 8)]"
    by (simp add: deals_def)
  with ra have a: "snd (runAll (deals [(demoUuid, demoRnd, demoSlots, 6), (demoUuid, demoRnd, dupSlots, 7),
                       (demoUuid, demoRnd, demoSlots, 8)]) (Some demo0)) = Some demo1"
    by (simp only: e)
  from ne bootstrap_once[where g = g1 and uuid = demoUuid and rnd = demoRnd and ss = dupSlots and now = 7]
  have "initDeal demoUuid demoRnd dupSlots 7 (Some g1) = Write (Some g1)" by blast
  with a l d show ?thesis by (simp only: e simp_thms)
qed

section \<open>One hand per identity\<close>

text \<open>
  Claim C10. \<^verbatim>\<open>joinedUids\<close> lists every identity seated once, however many seats it
  holds, and the deal makes one player record per listed identity, in that order, each
  with a hand of seven cards: the players' keys do not repeat and are the seated
  identities, and the hands hold seven cards per identity.
\<close>

theorem deal_one_hand_per_identity:
  "phase gstart = Some PlayingPhase \<and> stock gstart = [] \<and> discard gstart = [] \<longrightarrow>
     (\<exists>g. initDeal uuid rnd ss now (Some gstart) = Write (Some g) \<and>
          Object_keys (players g) = joinedUids ss \<and>
          distinct (Object_keys (players g)) \<and>
          set (Object_keys (players g)) =
            {u. u \<noteq> [] \<and> (\<exists>sl. Some sl \<in> {seat1 ss, seat2 ss, seat3 ss, seat4 ss} \<and> slot_uid sl = u)} \<and>
          (\<forall>kv\<in>set (players g). length (player_hand (snd kv)) = 7) \<and>
          handCards g = 7 * length (joinedUids ss))"
proof
  assume h: "phase gstart = Some PlayingPhase \<and> stock gstart = [] \<and> discard gstart = []"
  then have p: "phase gstart = Some PlayingPhase" "stock gstart = []" "discard gstart = []" by blast+
  from initDeal_deals[OF p, of uuid rnd ss now] obtain g where
    w: "initDeal uuid rnd ss now (Some gstart) = Write (Some g)" and
    k: "map fst (players g) = joinedUids ss" and
    hl: "\<forall>p\<in>set (joinedUids ss). length (handOf g p) = 7" by blast
  have k1: "Object_keys (players g) = joinedUids ss" by (simp add: Object_keys_def k)
  have k2: "distinct (Object_keys (players g))" by (simp add: k1 joinedUids_distinct)
  have k3: "set (Object_keys (players g)) =
            {u. u \<noteq> [] \<and> (\<exists>sl. Some sl \<in> {seat1 ss, seat2 ss, seat3 ss, seat4 ss} \<and> slot_uid sl = u)}"
    by (simp only: k1 joinedUids_set)
  have dk: "distinct (map fst (players g))" by (simp add: k joinedUids_distinct)
  have h7: "\<forall>kv\<in>set (players g). length (player_hand (snd kv)) = 7"
  proof
    fix kv assume kv: "kv \<in> set (players g)"
    then have "map_of (players g) (fst kv) = Some (snd kv)" using dk by simp
    then have "handOf g (fst kv) = player_hand (snd kv)" by (simp add: handOf_def)
    moreover have "fst kv \<in> set (joinedUids ss)" using kv k by (metis image_eqI set_map)
    ultimately show "length (player_hand (snd kv)) = 7" using hl by auto
  qed
  then have "map (\<lambda>kv. length (player_hand (snd kv))) (players g) = replicate (length (players g)) 7"
    by (simp add: map_replicate_const[symmetric] cong: map_cong)
  then have "handCards g = 7 * length (players g)" by (simp add: handCards_def sum_list_replicate)
  moreover have "length (players g) = length (joinedUids ss)" using k by (metis length_map)
  ultimately have hc: "handCards g = 7 * length (joinedUids ss)" by simp
  show "\<exists>g. initDeal uuid rnd ss now (Some gstart) = Write (Some g) \<and>
          Object_keys (players g) = joinedUids ss \<and>
          distinct (Object_keys (players g)) \<and>
          set (Object_keys (players g)) =
            {u. u \<noteq> [] \<and> (\<exists>sl. Some sl \<in> {seat1 ss, seat2 ss, seat3 ss, seat4 ss} \<and> slot_uid sl = u)} \<and>
          (\<forall>kv\<in>set (players g). length (player_hand (snd kv)) = 7) \<and>
          handCards g = 7 * length (joinedUids ss)"
    by (rule exI[of _ g]) (intro conjI; fact)
qed

theorem deal_one_hand_per_identity_witness:
  "\<exists>g. initDeal demoUuid demoRnd dupSlots 6 (Some demo0) = Write (Some g) \<and>
       Object_keys (players g) = [''ann'', ''bob''] \<and> handCards g = 14"
proof -
  have j: "joinedUids dupSlots = [''ann'', ''bob'']"
    by (simp add: joinedUids_def dupSlots_def arrayFromSet_def)
  have "phase demo0 = Some PlayingPhase \<and> stock demo0 = [] \<and> discard demo0 = []"
    by (simp add: demo0_def initialGame_def)
  with deal_one_hand_per_identity[where gstart = demo0 and uuid = demoUuid and rnd = demoRnd
      and ss = dupSlots and now = 6] obtain g where
    w: "initDeal demoUuid demoRnd dupSlots 6 (Some demo0) = Write (Some g)" and
    k: "Object_keys (players g) = joinedUids dupSlots" and
    h: "handCards g = 7 * length (joinedUids dupSlots)" by blast
  from k have k': "Object_keys (players g) = [''ann'', ''bob'']" by (simp only: j)
  from h have h': "handCards g = 14" by (simp add: j)
  show ?thesis by (rule exI[of _ g]) (intro conjI; fact)
qed

section \<open>Taking the top of the pile\<close>

text \<open>
  What \<^verbatim>\<open>takeTopDiscard\<close> does. With fewer than two cards on the pile \<^verbatim>\<open>canTakeTopDiscard\<close>
  is false and the update function returns the game as it is. With two or more, in a
  playing game that has not ended, on the caller's turn at step \<^verbatim>\<open>draw\<close>: when the caller
  holds a card, it moves the last card of the pile, and no other card, to the end of the
  caller's hand, records the card's origin as \<^verbatim>\<open>discard\<close> with the identity of its
  discarder, and sets the step to \<^verbatim>\<open>discard\<close>; when the caller holds no card, it throws
  and writes nothing.
\<close>

lemma takeTopDiscard_cases:
  "(length (discard g) < 2 \<longrightarrow>
      \<not> canTakeTopDiscard g \<and> takeTopDiscard uid (Some g) = Write (Some g))
   \<and> (phase g = Some PlayingPhase \<and> \<not> ended g \<and> turnUid g = Some uid \<and> step g = DrawStep \<and>
       2 \<le> length (discard g) \<and> handOf g uid \<noteq> [] \<longrightarrow>
      (\<exists>g'. takeTopDiscard uid (Some g) = Write (Some g') \<and>
            discard g' = butlast (discard g) \<and>
            handOf g' uid = handOf g uid @ [dc_card (last (discard g))] \<and>
            (\<forall>v. v \<noteq> uid \<longrightarrow> handOf g' v = handOf g v) \<and>
            stock g' = stock g \<and>
            cardOrigins g' (card_id (dc_card (last (discard g)))) =
              Some \<lparr>origin_kind = FromDiscard, origin_fromUid = dc_fromUid (last (discard g))\<rparr> \<and>
            step g' = DiscardStep \<and> turnUid g' = turnUid g))
   \<and> (phase g = Some PlayingPhase \<and> \<not> ended g \<and> turnUid g = Some uid \<and> step g = DrawStep \<and>
       2 \<le> length (discard g) \<and> handOf g uid = [] \<longrightarrow>
      takeTopDiscard uid (Some g) = Throw)"
proof (intro conjI impI)
  assume "length (discard g) < 2"
  then show "\<not> canTakeTopDiscard g" and "takeTopDiscard uid (Some g) = Write (Some g)"
    by (simp_all add: canTakeTopDiscard_def takeTopDiscard_short)
next
  assume h: "phase g = Some PlayingPhase \<and> \<not> ended g \<and> turnUid g = Some uid \<and> step g = DrawStep \<and>
       2 \<le> length (discard g) \<and> handOf g uid \<noteq> []"
  then have my: "\<not> notMyStep uid DrawStep g" by (simp add: notMyStep_def)
  from h obtain pl where pl: "map_of (players g) uid = Some pl" and ne: "player_hand pl \<noteq> []"
    by (auto simp add: handOf_def split: option.splits)
  from h have len: "2 \<le> length (discard g)" by blast
  let ?top = "last (discard g)"
  let ?g' = "g\<lparr>discard := butlast (discard g),
           players := obj_modify uid
             (\<lambda>p. p\<lparr>player_hand := player_hand p @ [dc_card ?top],
                    player_lastTurnTookDiscardFromUid := dc_fromUid ?top\<rparr>) (players g),
           cardOrigins := (cardOrigins g)(card_id (dc_card ?top) \<mapsto>
             \<lparr>origin_kind = FromDiscard, origin_fromUid = dc_fromUid ?top\<rparr>),
           step := DiscardStep\<rparr>"
  have w: "takeTopDiscard uid (Some g) = Write (Some ?g')"
    by (rule takeTopDiscard_takes[OF my pl len ne])
  have hands: "\<And>v. handOf ?g' v = (if v = uid then player_hand pl @ [dc_card ?top] else handOf g v)"
    by (simp add: handOf_def map_of_obj_modify pl)
  have mine: "handOf g uid = player_hand pl" by (simp add: handOf_def pl)
  show "\<exists>g'. takeTopDiscard uid (Some g) = Write (Some g') \<and>
            discard g' = butlast (discard g) \<and>
            handOf g' uid = handOf g uid @ [dc_card (last (discard g))] \<and>
            (\<forall>v. v \<noteq> uid \<longrightarrow> handOf g' v = handOf g v) \<and>
            stock g' = stock g \<and>
            cardOrigins g' (card_id (dc_card (last (discard g)))) =
              Some \<lparr>origin_kind = FromDiscard, origin_fromUid = dc_fromUid (last (discard g))\<rparr> \<and>
            step g' = DiscardStep \<and> turnUid g' = turnUid g"
  proof (intro exI[of _ ?g'] conjI allI impI)
    show "takeTopDiscard uid (Some g) = Write (Some ?g')" by (rule w)
    show "handOf ?g' uid = handOf g uid @ [dc_card ?top]" by (simp add: hands mine)
    fix v assume "v \<noteq> uid"
    then show "handOf ?g' v = handOf g v" by (simp add: hands)
  qed simp_all
next
  assume h: "phase g = Some PlayingPhase \<and> \<not> ended g \<and> turnUid g = Some uid \<and> step g = DrawStep \<and>
       2 \<le> length (discard g) \<and> handOf g uid = []"
  then have my: "\<not> notMyStep uid DrawStep g" by (simp add: notMyStep_def)
  with h show "takeTopDiscard uid (Some g) = Throw"
    by (auto simp add: takeTopDiscard_def handOf_def split: option.splits)
qed

lemma empty_hand_throws:
  assumes "\<not> notMyStep uid DrawStep g" and "handOf g uid = []"
  shows "stock g \<noteq> [] \<Longrightarrow> drawStock uid (Some g) = Throw"
    and "discard g \<noteq> [] \<Longrightarrow> eatHead uid now (Some g) = Throw"
  using assms by (auto simp add: drawStock_def eatHead_def handOf_def split: option.splits)

text \<open>
  Claim C8 fails on this input. In the match of Ann and Bob played on until Bob has laid
  or discarded every card, the game is playing and has not ended, it is Bob's turn at
  step \<^verbatim>\<open>draw\<close> and the pile has four cards, so \<^verbatim>\<open>canTakeTopDiscard\<close> holds and the claim
  has Bob take spades 1, the top card. Bob has a player record, but it holds no hand, and
  the update function throws at \<^verbatim>\<open>cur.players[uid].hand.push(card)\<close>: nothing is written and
  the card stays on the pile. \<^verbatim>\<open>drawStock\<close> and \<^verbatim>\<open>eatHead\<close> throw at the same call, so Bob
  has no move left.
\<close>

theorem takeTopDiscard_empty_hand:
  "reachable demoSlots bobOut \<and>
   phase bobOut = Some PlayingPhase \<and> \<not> ended bobOut \<and>
   turnUid bobOut = Some ''bob'' \<and> step bobOut = DrawStep \<and>
   map (\<lambda>d. card_id (dc_card d)) (discard bobOut) =
     [demoId H 8 33, demoId S 2 40, demoId S 4 42, demoId S 1 39] \<and>
   canTakeTopDiscard bobOut \<and>
   map_of (players bobOut) ''bob'' \<noteq> None \<and> handOf bobOut ''bob'' = [] \<and>
   takeTopDiscard ''bob'' (Some bobOut) = Throw \<and>
   drawStock ''bob'' (Some bobOut) = Throw \<and> eatHead ''bob'' 23 (Some bobOut) = Throw"
proof -
  note f = view_fields[OF view_bobOut]
  have ph: "phase bobOut = Some PlayingPhase" and en: "\<not> ended bobOut"
    and tu: "turnUid bobOut = Some ''bob''" and st: "step bobOut = DrawStep"
    and len: "length (discard bobOut) = 4" and ls: "length (stock bobOut) = 31"
    using f by simp_all
  have pile: "map (\<lambda>d. card_id (dc_card d)) (discard bobOut) =
     [demoId H 8 33, demoId S 2 40, demoId S 4 42, demoId S 1 39]"
    using view_pile[OF view_bobOut] by simp
  have can: "canTakeTopDiscard bobOut" by (simp add: canTakeTopDiscard_def len)
  have pl: "map_of (players bobOut) ''bob'' \<noteq> None" by (simp only: view_player[OF view_bobOut]) simp
  have "map card_id (handOf bobOut ''bob'') = []"
    by (simp only: view_hand[OF view_bobOut]) simp
  then have hand: "handOf bobOut ''bob'' = []" by simp
  from ph en tu st have my: "\<not> notMyStep ''bob'' DrawStep bobOut" by (simp add: notMyStep_def)
  from ph en tu st len hand takeTopDiscard_cases[of bobOut "''bob''"]
  have t: "takeTopDiscard ''bob'' (Some bobOut) = Throw" by simp
  from ls have "stock bobOut \<noteq> []" by auto
  from empty_hand_throws(1)[OF my hand this] have d: "drawStock ''bob'' (Some bobOut) = Throw" .
  from len have "discard bobOut \<noteq> []" by auto
  from empty_hand_throws(2)[OF my hand this] have e: "eatHead ''bob'' 23 (Some bobOut) = Throw" .
  from reachable_bobOut ph en tu st pile can pl hand t d e show ?thesis by (simp only: simp_thms)
qed

section \<open>Turn order\<close>






end
